theory Spec2Isabelle
  imports Main "HOL-Library.Char_ord" "HOL-Library.List_Lexorder" "HOL-Library.Product_Lexorder"
begin

section \<open>The platform: paths, errors and the filesystem interface\<close>

text \<open>
  \<^verbatim>\<open>main.py\<close> prints a directory tree. Everything it learns about the disk comes from
  calls into \<^verbatim>\<open>os\<close>, \<^verbatim>\<open>pathlib\<close> and \<^verbatim>\<open>fnmatch\<close>; those calls are the parameters
  of the model, collected in the record \<open>env\<close>, and each of them that can raise returns
  a sum, \<open>Inl\<close> the exception. The functions of \<^verbatim>\<open>main.py\<close> itself are translated one by
  one.

  A Python \<^verbatim>\<open>str\<close> is an Isabelle \<open>string\<close>; a character outside ASCII stands as its
  UTF-8 bytes, whose bytewise lexicographic order is the code point order Python
  compares strings by. A \<^verbatim>\<open>Path\<close> is the list of its components below the filesystem
  root, so \<^verbatim>\<open>Path("/a/b")\<close> is \<open>[''a'', ''b'']\<close>.
\<close>

type_synonym path = "string list"

text \<open>\<^verbatim>\<open>p.name\<close>: the final component, empty for the filesystem root.\<close>

definition path_name :: "path \<Rightarrow> string" where
  "path_name p = (if p = [] then [] else last p)"

text \<open>\<^verbatim>\<open>str(p)\<close> of an absolute path.\<close>

definition path_str :: "path \<Rightarrow> string" where
  "path_str p = (if p = [] then ''/'' else concat (map (\<lambda>c. CHR ''/'' # c) p))"

text \<open>\<^verbatim>\<open>Path(e.path)\<close> of the entry called \<open>nm\<close> that a listing of \<open>dir_path\<close> yields.\<close>

definition entry_path :: "path \<Rightarrow> string \<Rightarrow> path" where
  "entry_path dir_path nm = dir_path @ [nm]"

text \<open>
  The exceptions: the \<^verbatim>\<open>OSError\<close> subclasses the program names, \<open>OtherOSError\<close> for
  every other \<^verbatim>\<open>OSError\<close> (an I/O error, a name that is too long, too many open
  files, ...), and \<open>RuntimeError\<close> for an exception that is not an \<^verbatim>\<open>OSError\<close> (as
  \<^verbatim>\<open>Path.resolve\<close> raises on a loop of symbolic links). \<^verbatim>\<open>except OSError\<close> catches the
  exceptions \<open>is_OSError\<close> holds of.
\<close>

datatype error =
  PermissionError | FileNotFoundError | NotADirectoryError | OtherOSError | RuntimeError

definition is_OSError :: "error \<Rightarrow> bool" where
  "is_OSError e = (e \<noteq> RuntimeError)"

text \<open>
  \<^verbatim>\<open>os.stat_result\<close>; \<^verbatim>\<open>mark_seen\<close> reads both fields with \<^verbatim>\<open>getattr(st, _, -1)\<close>, so a
  field may be absent.
\<close>

record stat_result =
  st_dev :: "int option"
  st_ino :: "int option"

text \<open>
  The calls \<^verbatim>\<open>tree\<close> makes:
  \<^item> \<open>scandir d\<close>: what iterating \<^verbatim>\<open>os.scandir(d)\<close> yields, as the names yielded and the
    exception that ends the iteration, if one does (with no name yielded when the
    call itself raises);
  \<^item> \<open>entry_is_dir p follow\<close>: \<^verbatim>\<open>e.is_dir(follow_symlinks=follow)\<close> of the entry at \<open>p\<close>;
  \<^item> \<open>path_is_dir p\<close>, \<open>path_exists p\<close>: \<^verbatim>\<open>p.is_dir()\<close> and \<^verbatim>\<open>p.exists()\<close>, which follow
    symbolic links, answer \<^verbatim>\<open>False\<close> for a path that is not there and raise what they
    do not take for that (in the \<^verbatim>\<open>pathlib\<close> of Python 3.11 every \<^verbatim>\<open>OSError\<close> whose
    \<^verbatim>\<open>errno\<close> is not \<^verbatim>\<open>ENOENT\<close>, \<^verbatim>\<open>ENOTDIR\<close>, \<^verbatim>\<open>EBADF\<close> or \<^verbatim>\<open>ELOOP\<close>: a permission error,
    a name that is too long);
  \<^item> \<open>stat p\<close>: \<^verbatim>\<open>p.stat()\<close>, which follows symbolic links;
  \<^item> \<open>resolve p\<close>: \<^verbatim>\<open>p.resolve()\<close>;
  \<^item> \<open>fnmatch name pat\<close>: \<^verbatim>\<open>fnmatch.fnmatch(name, pat)\<close>;
  \<^item> \<open>lower s\<close>: \<^verbatim>\<open>s.lower()\<close>.
\<close>

record env =
  scandir :: "path \<Rightarrow> string list \<times> error option"
  entry_is_dir :: "path \<Rightarrow> bool \<Rightarrow> error + bool"
  path_is_dir :: "path \<Rightarrow> error + bool"
  path_exists :: "path \<Rightarrow> error + bool"
  stat :: "path \<Rightarrow> error + stat_result"
  resolve :: "path \<Rightarrow> error + path"
  fnmatch :: "string \<Rightarrow> string \<Rightarrow> bool"
  lower :: "string \<Rightarrow> string"

section \<open>The filter\<close>

record Filters =
  show_hidden :: bool
  dirs_only :: bool
  pattern :: "string option"
  ignore_names :: "string list"
  ignore_globs :: "string list"

definition is_hidden :: "path \<Rightarrow> bool" where
  "is_hidden p = (case path_name p of [] \<Rightarrow> False | c # _ \<Rightarrow> c = CHR ''.'')"

definition matches_any_glob :: "env \<Rightarrow> string \<Rightarrow> string list \<Rightarrow> bool" where
  "matches_any_glob ev name globs = list_ex (\<lambda>g. fnmatch ev name g) globs"

text \<open>
  \<^verbatim>\<open>if flt.pattern and ...\<close> tests the truth value of the pattern: \<^verbatim>\<open>None\<close> and the
  empty string are both false.
\<close>

definition truthy :: "string option \<Rightarrow> bool" where
  "truthy s = (case s of None \<Rightarrow> False | Some t \<Rightarrow> t \<noteq> [])"

text \<open>
  \<^verbatim>\<open>should_ignore\<close>. The last test calls \<^verbatim>\<open>path.is_dir()\<close> when \<^verbatim>\<open>dirs_only\<close> is set and
  no earlier test returned; what that call raises leaves the function.
\<close>

definition should_ignore :: "env \<Rightarrow> path \<Rightarrow> Filters \<Rightarrow> error + bool" where
  "should_ignore ev p flt =
     (let name = path_name p in
      if \<not> show_hidden flt \<and> is_hidden p then Inr True
      else if name \<in> set (ignore_names flt) then Inr True
      else if matches_any_glob ev name (ignore_globs flt) then Inr True
      else if truthy (pattern flt) \<and> \<not> fnmatch ev name (the (pattern flt)) then Inr True
      else if dirs_only flt then
        (case path_is_dir ev p of
           Inl e \<Rightarrow> Inl e
         | Inr is_dir \<Rightarrow> if \<not> is_dir then Inr True else Inr False)
      else Inr False)"

section \<open>The walker\<close>

text \<open>
  \<^verbatim>\<open>safe_scandir\<close> is a generator: the names it yields and the exception that leaves
  it, if one does. It ends quietly on \<^verbatim>\<open>PermissionError\<close> and \<^verbatim>\<open>FileNotFoundError\<close>.
\<close>

definition safe_scandir :: "env \<Rightarrow> path \<Rightarrow> string list \<times> error option" where
  "safe_scandir ev dir_path =
     (case scandir ev dir_path of
        (names, None) \<Rightarrow> (names, None)
      | (names, Some e) \<Rightarrow>
          if e = PermissionError then (names, None)
          else if e = FileNotFoundError then (names, None)
          else (names, Some e))"

text \<open>
  The state the closures \<^verbatim>\<open>mark_seen\<close> and \<^verbatim>\<open>walk\<close> share: the three variables of
  \<^verbatim>\<open>tree\<close> they close over.
\<close>

record state =
  lines :: "string list"
  seen_dirs :: "(int \<times> int) set"
  seen_realpaths :: "string set"

definition getattr :: "int option \<Rightarrow> int \<Rightarrow> int" where
  "getattr field dflt = (case field of None \<Rightarrow> dflt | Some v \<Rightarrow> v)"

text \<open>
  The second half of \<^verbatim>\<open>mark_seen\<close>, reached when \<^verbatim>\<open>stat\<close> gives no usable key. It is
  outside the \<^verbatim>\<open>try\<close>: what \<^verbatim>\<open>p.resolve()\<close> raises leaves \<^verbatim>\<open>mark_seen\<close>.
\<close>

definition mark_seen_realpath :: "env \<Rightarrow> path \<Rightarrow> state \<Rightarrow> error + bool \<times> state" where
  "mark_seen_realpath ev p st =
     (case resolve ev p of
        Inl e \<Rightarrow> Inl e
      | Inr r \<Rightarrow>
          (let rp = path_str r in
           if rp \<in> seen_realpaths st then Inr (True, st)
           else Inr (False, st\<lparr>seen_realpaths := insert rp (seen_realpaths st)\<rparr>)))"

text \<open>\<^verbatim>\<open>mark_seen\<close>: the answer and the state it leaves, or the exception.\<close>

definition mark_seen :: "env \<Rightarrow> path \<Rightarrow> state \<Rightarrow> error + bool \<times> state" where
  "mark_seen ev p st =
     (case stat ev p of
        Inr sr \<Rightarrow>
          (let key = (getattr (st_dev sr) (- 1), getattr (st_ino sr) (- 1)) in
           if key \<noteq> (- 1, - 1) then
             (if key \<in> seen_dirs st then Inr (True, st)
              else Inr (False, st\<lparr>seen_dirs := insert key (seen_dirs st)\<rparr>))
           else mark_seen_realpath ev p st)
      | Inl e \<Rightarrow> if is_OSError e then mark_seen_realpath ev p st else Inl e)"

text \<open>
  The first loop of \<^verbatim>\<open>walk\<close>, over the names the generator yields: each entry with its
  directory-ness, \<^verbatim>\<open>False\<close> when the check raises an \<^verbatim>\<open>OSError\<close>. Another exception of
  the check leaves the loop at that entry; the exception that leaves the generator
  comes after the last name.
\<close>

fun check_entries :: "env \<Rightarrow> bool \<Rightarrow> path \<Rightarrow> string list \<Rightarrow> error + (path \<times> bool) list" where
  "check_entries ev follow_symlinks dir_path [] = Inr []"
| "check_entries ev follow_symlinks dir_path (nm # names) =
     (let p = entry_path dir_path nm in
      case (case entry_is_dir ev p follow_symlinks of
              Inr b \<Rightarrow> Inr b
            | Inl e \<Rightarrow> if is_OSError e then Inr False else Inl e) of
        Inl e \<Rightarrow> Inl e
      | Inr is_dir \<Rightarrow>
          (case check_entries ev follow_symlinks dir_path names of
             Inl e \<Rightarrow> Inl e
           | Inr entries \<Rightarrow> Inr ((p, is_dir) # entries)))"

definition scan_entries :: "env \<Rightarrow> bool \<Rightarrow> path \<Rightarrow> error + (path \<times> bool) list" where
  "scan_entries ev follow_symlinks dir_path =
     (case safe_scandir ev dir_path of
        (names, end_error) \<Rightarrow>
          (case check_entries ev follow_symlinks dir_path names of
             Inl e \<Rightarrow> Inl e
           | Inr entries \<Rightarrow>
               (case end_error of None \<Rightarrow> Inr entries | Some e \<Rightarrow> Inl e)))"

text \<open>The key of \<^verbatim>\<open>entries.sort\<close>; \<^verbatim>\<open>list.sort\<close> is stable, as \<open>sort_key\<close> is.\<close>

definition entry_key :: "env \<Rightarrow> path \<times> bool \<Rightarrow> bool \<times> string" where
  "entry_key ev x = (\<not> snd x, lower ev (path_name (fst x)))"

text \<open>
  The list comprehension that filters the sorted entries: \<^verbatim>\<open>should_ignore\<close> is called
  on them in order, and the first call that raises ends it.
\<close>

fun filter_entries :: "env \<Rightarrow> Filters \<Rightarrow> (path \<times> bool) list \<Rightarrow> error + (path \<times> bool) list" where
  "filter_entries ev flt [] = Inr []"
| "filter_entries ev flt ((p, is_dir) # entries) =
     (case should_ignore ev p flt of
        Inl e \<Rightarrow> Inl e
      | Inr ignore \<Rightarrow>
          (case filter_entries ev flt entries of
             Inl e \<Rightarrow> Inl e
           | Inr kept \<Rightarrow> Inr (if ignore then kept else (p, is_dir) # kept)))"

text \<open>The entries \<^verbatim>\<open>walk\<close> renders for one directory: listed, sorted, then filtered.\<close>

definition listing :: "env \<Rightarrow> Filters \<Rightarrow> bool \<Rightarrow> path \<Rightarrow> error + (path \<times> bool) list" where
  "listing ev flt follow_symlinks dir_path =
     (case scan_entries ev follow_symlinks dir_path of
        Inl e \<Rightarrow> Inl e
      | Inr entries \<Rightarrow> filter_entries ev flt (sort_key (entry_key ev) entries))"

definition branch_last :: string where
  "branch_last = [CHR 0xE2, CHR 0x94, CHR 0x94, CHR 0xE2, CHR 0x94, CHR 0x80,
                  CHR 0xE2, CHR 0x94, CHR 0x80, CHR '' '']"

definition branch_tee :: string where
  "branch_tee = [CHR 0xE2, CHR 0x94, CHR 0x9C, CHR 0xE2, CHR 0x94, CHR 0x80,
                 CHR 0xE2, CHR 0x94, CHR 0x80, CHR '' '']"

definition extension :: "bool \<Rightarrow> string" where
  "extension is_last = (if is_last then ''    '' else [CHR 0xE2, CHR 0x94, CHR 0x82] @ ''   '')"

definition cycle_text :: string where
  "cycle_text = [CHR 0xE2, CHR 0x86, CHR 0xA9, CHR 0xEF, CHR 0xB8, CHR 0x8E] @ '' (cycle)''"

definition entry_line :: "string \<Rightarrow> bool \<Rightarrow> path \<Rightarrow> bool \<Rightarrow> string" where
  "entry_line prefix is_last p is_dir =
     prefix @ (if is_last then branch_last else branch_tee) @ path_name p
       @ (if is_dir then ''/'' else '''')"

definition cycle_line :: "string \<Rightarrow> bool \<Rightarrow> string" where
  "cycle_line prefix is_last = prefix @ extension is_last @ cycle_text"

definition append_line :: "string \<Rightarrow> state \<Rightarrow> state" where
  "append_line l st = st\<lparr>lines := lines st @ [l]\<rparr>"

definition too_deep :: "int option \<Rightarrow> int \<Rightarrow> bool" where
  "too_deep max_depth depth = (case max_depth of None \<Rightarrow> False | Some m \<Rightarrow> depth > m)"

text \<open>
  \<^verbatim>\<open>follow_symlinks and mark_seen(p)\<close>: \<^verbatim>\<open>mark_seen\<close> is called only when links are
  followed.
\<close>

definition follow_and_mark_seen :: "env \<Rightarrow> bool \<Rightarrow> path \<Rightarrow> state \<Rightarrow> error + bool \<times> state" where
  "follow_and_mark_seen ev follow_symlinks p st =
     (if follow_symlinks then mark_seen ev p st else Inr (False, st))"

text \<open>
  \<^verbatim>\<open>walk\<close> and its second loop. The first argument bounds the nesting of \<^verbatim>\<open>walk\<close> calls:
  \<open>None\<close> says the bound was reached, \<open>Some (Inl e)\<close> that \<^verbatim>\<open>walk\<close> raised \<open>e\<close>,
  \<open>Some (Inr st)\<close> that it returned and left the shared state \<open>st\<close>.
  In the loop \<open>is_last\<close> is the source's \<^verbatim>\<open>last\<close>, that is
  \<^verbatim>\<open>idx == len(entries) - 1\<close>: no entry is left after this one.
\<close>

fun walk :: "nat \<Rightarrow> env \<Rightarrow> Filters \<Rightarrow> int option \<Rightarrow> bool \<Rightarrow> path \<Rightarrow> string \<Rightarrow> int \<Rightarrow> state
               \<Rightarrow> (error + state) option"
and walk_entries :: "nat \<Rightarrow> env \<Rightarrow> Filters \<Rightarrow> int option \<Rightarrow> bool \<Rightarrow> string \<Rightarrow> int
               \<Rightarrow> (path \<times> bool) list \<Rightarrow> state \<Rightarrow> (error + state) option"
where
  "walk 0 ev flt max_depth follow_symlinks dir_path prefix depth st = None"
| "walk (Suc n) ev flt max_depth follow_symlinks dir_path prefix depth st =
     (if too_deep max_depth depth then Some (Inr st)
      else case listing ev flt follow_symlinks dir_path of
             Inl e \<Rightarrow> Some (Inl e)
           | Inr entries \<Rightarrow>
               walk_entries n ev flt max_depth follow_symlinks prefix depth entries st)"
| "walk_entries n ev flt max_depth follow_symlinks prefix depth [] st = Some (Inr st)"
| "walk_entries n ev flt max_depth follow_symlinks prefix depth ((p, is_dir) # rest) st =
     (let is_last = (rest = []);
          st1 = append_line (entry_line prefix is_last p is_dir) st
      in if is_dir then
           (case follow_and_mark_seen ev follow_symlinks p st1 of
              Inl e \<Rightarrow> Some (Inl e)
            | Inr (seen_before, st2) \<Rightarrow>
                if seen_before then
                  walk_entries n ev flt max_depth follow_symlinks prefix depth rest
                    (append_line (cycle_line prefix is_last) st2)
                else
                  (case walk n ev flt max_depth follow_symlinks p (prefix @ extension is_last)
                          (depth + 1) st2 of
                     None \<Rightarrow> None
                   | Some (Inl e) \<Rightarrow> Some (Inl e)
                   | Some (Inr st3) \<Rightarrow>
                       walk_entries n ev flt max_depth follow_symlinks prefix depth rest st3))
         else walk_entries n ev flt max_depth follow_symlinks prefix depth rest st1)"

text \<open>
  The body of \<^verbatim>\<open>tree\<close>, run on the three variables as it finds them: its first
  statements bind them anew (\<^verbatim>\<open>lines = []\<close>, \<^verbatim>\<open>seen_dirs = set()\<close>,
  \<^verbatim>\<open>seen_realpaths = set()\<close>). \<open>Some (Inl e)\<close> when it raises \<open>e\<close>, \<open>Some (Inr st)\<close> when it
  returns and leaves the variables as \<open>st\<close>; it returns \<^verbatim>\<open>lines\<close>.
\<close>

definition tree_body :: "nat \<Rightarrow> env \<Rightarrow> path \<Rightarrow> Filters \<Rightarrow> int option \<Rightarrow> bool \<Rightarrow> state
                           \<Rightarrow> (error + state) option" where
  "tree_body fuel ev root0 flt max_depth follow_symlinks st_before =
     (let st0 = st_before\<lparr>lines := [], seen_dirs := {}, seen_realpaths := {}\<rparr> in
      case resolve ev root0 of
        Inl e \<Rightarrow> Some (Inl e)
      | Inr root \<Rightarrow>
          (case path_exists ev root of
             Inl e \<Rightarrow> Some (Inl e)
           | Inr exists \<Rightarrow>
               if \<not> exists then Some (Inl FileNotFoundError)
               else
                 (case path_is_dir ev root of
                    Inl e \<Rightarrow> Some (Inl e)
                  | Inr is_dir \<Rightarrow>
                      if \<not> is_dir then Some (Inl NotADirectoryError)
                      else
                        (case follow_and_mark_seen ev follow_symlinks root
                                (append_line (path_str root @ ''/'') st0) of
                           Inl e \<Rightarrow> Some (Inl e)
                         | Inr (seen_before, st1) \<Rightarrow>
                             walk fuel ev flt max_depth follow_symlinks root [] 1 st1))))"

text \<open>
  \<^verbatim>\<open>tree\<close>: a call has variables of its own. \<open>Some (Inl e)\<close> when it raises \<open>e\<close>,
  \<open>Some (Inr ls)\<close> when it returns the lines \<open>ls\<close>.
\<close>

definition fresh_state :: state where
  "fresh_state = \<lparr>lines = [], seen_dirs = {}, seen_realpaths = {}\<rparr>"

definition tree :: "nat \<Rightarrow> env \<Rightarrow> path \<Rightarrow> Filters \<Rightarrow> int option \<Rightarrow> bool
                      \<Rightarrow> (error + string list) option" where
  "tree fuel ev root0 flt max_depth follow_symlinks =
     (case tree_body fuel ev root0 flt max_depth follow_symlinks fresh_state of
        None \<Rightarrow> None
      | Some (Inl e) \<Rightarrow> Some (Inl e)
      | Some (Inr st) \<Rightarrow> Some (Inr (lines st)))"

text \<open>
  The rounds of the second loop that are for a directory entry, in the order \<^verbatim>\<open>walk\<close>
  makes them: \<open>Visit n prefix depth p rest st\<close> says that the loop of a \<^verbatim>\<open>walk\<close> with
  bound \<open>n\<close>, this prefix and this depth starts its round for the directory entry \<open>p\<close>,
  with the entries \<open>rest\<close> still to come, in the state \<open>st\<close>. \<open>visits_walk\<close> and
  \<open>visits_entries\<close> follow \<^verbatim>\<open>walk\<close> and its loop call by call and collect the rounds.
\<close>

datatype visit =
  Visit (v_fuel: nat) (v_prefix: string) (v_depth: int) (v_path: path)
        (v_rest: "(path \<times> bool) list") (v_state: state)

fun visits_walk :: "nat \<Rightarrow> env \<Rightarrow> Filters \<Rightarrow> int option \<Rightarrow> bool \<Rightarrow> path \<Rightarrow> string \<Rightarrow> int
                      \<Rightarrow> state \<Rightarrow> visit list"
and visits_entries :: "nat \<Rightarrow> env \<Rightarrow> Filters \<Rightarrow> int option \<Rightarrow> bool \<Rightarrow> string \<Rightarrow> int
                      \<Rightarrow> (path \<times> bool) list \<Rightarrow> state \<Rightarrow> visit list"
where
  "visits_walk 0 ev flt max_depth follow_symlinks dir_path prefix depth st = []"
| "visits_walk (Suc n) ev flt max_depth follow_symlinks dir_path prefix depth st =
     (if too_deep max_depth depth then []
      else case listing ev flt follow_symlinks dir_path of
             Inl e \<Rightarrow> []
           | Inr entries \<Rightarrow>
               visits_entries n ev flt max_depth follow_symlinks prefix depth entries st)"
| "visits_entries n ev flt max_depth follow_symlinks prefix depth [] st = []"
| "visits_entries n ev flt max_depth follow_symlinks prefix depth ((p, is_dir) # rest) st =
     (let is_last = (rest = []);
          st1 = append_line (entry_line prefix is_last p is_dir) st
      in if is_dir then
           Visit n prefix depth p rest st #
           (case follow_and_mark_seen ev follow_symlinks p st1 of
              Inl e \<Rightarrow> []
            | Inr (seen_before, st2) \<Rightarrow>
                if seen_before then
                  visits_entries n ev flt max_depth follow_symlinks prefix depth rest
                    (append_line (cycle_line prefix is_last) st2)
                else
                  visits_walk n ev flt max_depth follow_symlinks p (prefix @ extension is_last)
                    (depth + 1) st2 @
                  (case walk n ev flt max_depth follow_symlinks p (prefix @ extension is_last)
                          (depth + 1) st2 of
                     Some (Inr st3) \<Rightarrow>
                       visits_entries n ev flt max_depth follow_symlinks prefix depth rest st3
                   | _ \<Rightarrow> []))
         else visits_entries n ev flt max_depth follow_symlinks prefix depth rest st1)"

text \<open>The rounds of a call of \<^verbatim>\<open>tree\<close>: those of its call of \<^verbatim>\<open>walk\<close>.\<close>

definition visits_tree :: "nat \<Rightarrow> env \<Rightarrow> path \<Rightarrow> Filters \<Rightarrow> int option \<Rightarrow> bool \<Rightarrow> visit list" where
  "visits_tree fuel ev root0 flt max_depth follow_symlinks =
     (case resolve ev root0 of
        Inl e \<Rightarrow> []
      | Inr root \<Rightarrow>
          (if path_exists ev root = Inr True \<and> path_is_dir ev root = Inr True then
             (case follow_and_mark_seen ev follow_symlinks root
                     (append_line (path_str root @ ''/'') fresh_state) of
                Inl e \<Rightarrow> []
              | Inr (seen_before, st1) \<Rightarrow>
                  visits_walk fuel ev flt max_depth follow_symlinks root [] 1 st1)
           else []))"

section \<open>A disk for the scenarios\<close>

text \<open>
  The scenarios speak of concrete directory trees. A \<open>disk\<close> lists the canonical path
  of every file with what is there: a directory with the names it lists, a regular file
  or a symbolic link with its (canonical) target. The inode of a file is its position in
  the list. \<open>disk_env\<close> answers the platform calls from such a disk: \<open>canon\<close> follows the
  links along a path as the kernel does, \<open>nofollow\<close> all but a final one (paths here
  have no \<^verbatim>\<open>..\<close> component and links do not form loops). A name of more than 255 bytes
  is too long for the kernel: \<^verbatim>\<open>exists\<close>, \<^verbatim>\<open>is_dir\<close>, \<^verbatim>\<open>stat\<close> and \<^verbatim>\<open>scandir\<close> raise an
  \<^verbatim>\<open>OSError\<close> for it, \<^verbatim>\<open>resolve\<close> keeps it.
\<close>

datatype node = Dir "string list" | File | Link path

type_synonym disk = "(path \<times> node) list"

definition canon_step :: "disk \<Rightarrow> path \<Rightarrow> string \<Rightarrow> path" where
  "canon_step d q c = (case map_of d (q @ [c]) of Some (Link t) \<Rightarrow> t | _ \<Rightarrow> q @ [c])"

definition canon :: "disk \<Rightarrow> path \<Rightarrow> path" where
  "canon d p = foldl (canon_step d) [] p"

definition nofollow :: "disk \<Rightarrow> path \<Rightarrow> path" where
  "nofollow d p = (if p = [] then [] else canon d (butlast p) @ [last p])"

definition is_Dir :: "node option \<Rightarrow> bool" where
  "is_Dir x = (case x of Some (Dir _) \<Rightarrow> True | _ \<Rightarrow> False)"

definition name_too_long :: "path \<Rightarrow> bool" where
  "name_too_long p = list_ex (\<lambda>c. 255 < length c) p"

fun index_of :: "path \<Rightarrow> disk \<Rightarrow> int option" where
  "index_of p [] = None"
| "index_of p ((q, x) # d) =
     (if p = q then Some 0 else map_option (\<lambda>i. i + 1) (index_of p d))"

text \<open>
  \<open>glob pat name\<close>: shell matching with \<^verbatim>\<open>*\<close> and \<^verbatim>\<open>?\<close>, which is what \<^verbatim>\<open>fnmatch.fnmatch\<close>
  computes on POSIX for a pattern without bracket expressions and an ASCII name; the
  scenarios have no other pattern and no other name. The properties of \<^verbatim>\<open>tree\<close> that
  are not scenarios are stated for every \<open>env\<close>, whatever its \<open>fnmatch\<close> and \<open>lower\<close>.
\<close>

fun glob :: "string \<Rightarrow> string \<Rightarrow> bool" where
  "glob [] s = (s = [])"
| "glob (c # pat) [] = (c = CHR ''*'' \<and> glob pat [])"
| "glob (c # pat) (x # s) =
     (if c = CHR ''*'' then (if glob pat (x # s) then True else glob (c # pat) s)
      else if c = CHR ''?'' \<or> c = x then glob pat s
      else False)"

text \<open>\<^verbatim>\<open>str.lower\<close> on ASCII text.\<close>

definition ascii_lower :: "string \<Rightarrow> string" where
  "ascii_lower s =
     map (\<lambda>c. if CHR ''A'' \<le> c \<and> c \<le> CHR ''Z'' then char_of (of_char c + (32::nat)) else c) s"

definition disk_env :: "disk \<Rightarrow> env" where
  "disk_env d =
     \<lparr>scandir = (\<lambda>p. if name_too_long p then ([], Some OtherOSError)
                     else case map_of d (canon d p) of
                            Some (Dir names) \<Rightarrow> (names, None)
                          | Some _ \<Rightarrow> ([], Some NotADirectoryError)
                          | None \<Rightarrow> ([], Some FileNotFoundError)),
      entry_is_dir = (\<lambda>p follow.
         Inr (is_Dir (map_of d (if follow then canon d p else nofollow d p)))),
      path_is_dir = (\<lambda>p. if name_too_long p then Inl OtherOSError
                         else Inr (is_Dir (map_of d (canon d p)))),
      path_exists = (\<lambda>p. if name_too_long p then Inl OtherOSError
                         else Inr (map_of d (canon d p) \<noteq> None)),
      stat = (\<lambda>p. if name_too_long p then Inl OtherOSError
                  else case index_of (canon d p) d of
                         None \<Rightarrow> Inl FileNotFoundError
                       | Some i \<Rightarrow> Inr \<lparr>st_dev = Some 1, st_ino = Some i\<rparr>),
      resolve = (\<lambda>p. Inr (canon d p)),
      fnmatch = (\<lambda>name pat. glob pat name),
      lower = ascii_lower\<rparr>"

definition default_filters :: Filters where
  "default_filters =
     \<lparr>show_hidden = True, dirs_only = False, pattern = None,
      ignore_names = [], ignore_globs = []\<rparr>"

definition disk_ab :: disk where
  "disk_ab = [([], Dir [''a'']), ([''a''], Dir [''x.txt'', ''b'']),
              ([''a'', ''b''], Dir []), ([''a'', ''x.txt''], File)]"

text \<open>The chain \<^verbatim>\<open>/a/b/c\<close>, with a regular file \<^verbatim>\<open>d\<close> in \<^verbatim>\<open>/a/b/c\<close>.\<close>

definition disk_chain :: disk where
  "disk_chain = [([], Dir [''a'']), ([''a''], Dir [''b'']), ([''a'', ''b''], Dir [''c'']),
                 ([''a'', ''b'', ''c''], Dir [''d'']), ([''a'', ''b'', ''c'', ''d''], File)]"

text \<open>\<^verbatim>\<open>/a/b/up\<close> is a symbolic link to its ancestor \<^verbatim>\<open>/a\<close>.\<close>

definition disk_loop :: disk where
  "disk_loop = [([], Dir [''a'']), ([''a''], Dir [''f'', ''b'']),
                ([''a'', ''b''], Dir [''z'', ''up'']), ([''a'', ''b'', ''up''], Link [''a'']),
                ([''a'', ''b'', ''z''], File), ([''a'', ''f''], File)]"

text \<open>\<^verbatim>\<open>/a/c\<close> is a symbolic link to its sibling directory \<^verbatim>\<open>/a/b\<close>.\<close>

definition disk_alias :: disk where
  "disk_alias = [([], Dir [''a'']), ([''a''], Dir [''c'', ''b'']), ([''a'', ''b''], Dir [''x'']),
                 ([''a'', ''b'', ''x''], File), ([''a'', ''c''], Link [''a'', ''b''])]"

text \<open>\<^verbatim>\<open>/a/c\<close> is a symbolic link to \<^verbatim>\<open>/a/b/x\<close>, a directory one level further down.\<close>

definition disk_uncle :: disk where
  "disk_uncle = [([], Dir [''a'']), ([''a''], Dir [''c'', ''b'']), ([''a'', ''b''], Dir [''x'']),
                 ([''a'', ''b'', ''x''], Dir [''y'']), ([''a'', ''b'', ''x'', ''y''], File),
                 ([''a'', ''c''], Link [''a'', ''b'', ''x''])]"

text \<open>\<^verbatim>\<open>/a/l\<close> is a symbolic link to the directory \<^verbatim>\<open>/a/d\<close>.\<close>

definition disk_link :: disk where
  "disk_link = [([], Dir [''a'']), ([''a''], Dir [''l'', ''d'']), ([''a'', ''d''], Dir []),
                ([''a'', ''l''], Link [''a'', ''d''])]"






section \<open>Notions the properties are stated with\<close>

text \<open>
  The identity \<^verbatim>\<open>mark_seen\<close> keys a directory by: the pair \<^verbatim>\<open>(st_dev, st_ino)\<close> when
  \<^verbatim>\<open>stat\<close> gives one other than \<^verbatim>\<open>(-1, -1)\<close>, the resolved path otherwise; \<open>Inl\<close> where
  \<^verbatim>\<open>mark_seen\<close> raises. \<open>seen st\<close> is the set of identities the two sets of the state
  hold.
\<close>

datatype ident = DevIno "int \<times> int" | RealPath string

definition realpath_identity :: "env \<Rightarrow> path \<Rightarrow> error + ident" where
  "realpath_identity ev p =
     (case resolve ev p of Inl e \<Rightarrow> Inl e | Inr r \<Rightarrow> Inr (RealPath (path_str r)))"

definition identity :: "env \<Rightarrow> path \<Rightarrow> error + ident" where
  "identity ev p =
     (case stat ev p of
        Inr sr \<Rightarrow>
          (let key = (getattr (st_dev sr) (- 1), getattr (st_ino sr) (- 1)) in
           if key \<noteq> (- 1, - 1) then Inr (DevIno key) else realpath_identity ev p)
      | Inl e \<Rightarrow> if is_OSError e then realpath_identity ev p else Inl e)"

definition seen :: "state \<Rightarrow> ident set" where
  "seen st = DevIno ` seen_dirs st \<union> RealPath ` seen_realpaths st"




text \<open>
  The five exclusion rules in the words of the specification (4.1), for an entry of
  name \<open>name\<close> that is a directory or not, and their disjunction \<open>spec_shouldExclude\<close>.
  \<open>rule_pattern_nonempty\<close> is rule 4 for a pattern that is not the empty string.
\<close>

definition rule_hidden :: "Filters \<Rightarrow> string \<Rightarrow> bool" where
  "rule_hidden flt name = (take 1 name = ''.'' \<and> \<not> show_hidden flt)"

definition rule_ignore_names :: "Filters \<Rightarrow> string \<Rightarrow> bool" where
  "rule_ignore_names flt name = (name \<in> set (ignore_names flt))"

definition rule_ignore_globs :: "env \<Rightarrow> Filters \<Rightarrow> string \<Rightarrow> bool" where
  "rule_ignore_globs ev flt name = list_ex (\<lambda>g. fnmatch ev name g) (ignore_globs flt)"

definition rule_pattern :: "env \<Rightarrow> Filters \<Rightarrow> string \<Rightarrow> bool" where
  "rule_pattern ev flt name =
     (case pattern flt of None \<Rightarrow> False | Some pat \<Rightarrow> \<not> fnmatch ev name pat)"

definition rule_pattern_nonempty :: "env \<Rightarrow> Filters \<Rightarrow> string \<Rightarrow> bool" where
  "rule_pattern_nonempty ev flt name = (pattern flt \<noteq> Some [] \<and> rule_pattern ev flt name)"

definition rule_dirs_only :: "Filters \<Rightarrow> bool \<Rightarrow> bool" where
  "rule_dirs_only flt is_directory = (dirs_only flt \<and> \<not> is_directory)"

definition spec_shouldExclude :: "env \<Rightarrow> Filters \<Rightarrow> string \<Rightarrow> bool \<Rightarrow> bool" where
  "spec_shouldExclude ev flt name is_directory =
     (rule_hidden flt name \<or> rule_ignore_names flt name \<or> rule_ignore_globs ev flt name
        \<or> rule_pattern ev flt name \<or> rule_dirs_only flt is_directory)"

text \<open>
  What is known of a round \<open>v\<close> once \<^verbatim>\<open>mark_seen\<close> has run in it: the identities seen
  before, and the identity of its directory. \<open>chain vs\<close>: each round of \<open>vs\<close> starts
  in a state that holds all of that for every round before it. \<open>visits_grow\<close> adds
  that the rounds start with at least the identities of the state \<open>st\<close> the call
  started with, and that the state a call returns holds those of all its rounds.
\<close>

definition marked :: "env \<Rightarrow> visit \<Rightarrow> ident set" where
  "marked ev v = seen (v_state v) \<union> {i. identity ev (v_path v) = Inr i}"

fun chain :: "env \<Rightarrow> visit list \<Rightarrow> bool" where
  "chain ev [] = True"
| "chain ev (v # vs) = ((\<forall>w \<in> set vs. marked ev v \<subseteq> seen (v_state w)) \<and> chain ev vs)"

definition visits_grow :: "env \<Rightarrow> visit list \<Rightarrow> state \<Rightarrow> (error + state) option \<Rightarrow> bool" where
  "visits_grow ev vs st result =
     ((\<forall>v \<in> set vs. seen st \<subseteq> seen (v_state v))
      \<and> (\<forall>st9. result = Some (Inr st9) \<longrightarrow> (\<forall>v \<in> set vs. marked ev v \<subseteq> seen st9))
      \<and> chain ev vs)"

text \<open>\<open>starts_with q l\<close>: the list \<open>l\<close> begins with \<open>q\<close>.\<close>

definition starts_with :: "'a list \<Rightarrow> 'a list \<Rightarrow> bool" where
  "starts_with q l = (take (length q) l = q)"

text \<open>
  \<open>round_returns v ls\<close>: the loop, run from the round \<open>v\<close> on, returns, and the lines
  \<open>ls\<close> begin with the lines it leaves.
\<close>

definition round_returns :: "env \<Rightarrow> Filters \<Rightarrow> int option \<Rightarrow> bool \<Rightarrow> visit \<Rightarrow> string list \<Rightarrow> bool" where
  "round_returns ev flt max_depth follow_symlinks v ls =
     (\<exists>st2. walk_entries (v_fuel v) ev flt max_depth follow_symlinks (v_prefix v) (v_depth v)
              ((v_path v, True) # v_rest v) (v_state v) = Some (Inr st2)
            \<and> starts_with (lines st2) ls)"

text \<open>
  The lines the loop of \<^verbatim>\<open>walk\<close> appends for the entries \<open>es\<close> of one directory under
  the prefix \<open>q\<close>: the line of each entry in turn, each followed by the block of lines
  \<open>bs\<close> gives for it (what lies below the entry). \<open>starts_with q l\<close>: the list \<open>l\<close>
  begins with \<open>q\<close>.
\<close>

fun children_lines :: "string \<Rightarrow> (path \<times> bool) list \<Rightarrow> string list list \<Rightarrow> string list" where
  "children_lines q [] bs = []"
| "children_lines q ((p, is_dir) # rest) [] =
     entry_line q (rest = []) p is_dir # children_lines q rest []"
| "children_lines q ((p, is_dir) # rest) (b # bs) =
     entry_line q (rest = []) p is_dir # b @ children_lines q rest bs"

section \<open>The loop, case by case\<close>

lemma walk_entries_file:
  "walk_entries n ev flt md fo prefix depth ((p, False) # rest) st
     = walk_entries n ev flt md fo prefix depth rest
         (append_line (entry_line prefix (rest = []) p False) st)"
  by (simp add: Let_def)

lemma walk_entries_dir_raises:
  assumes "follow_and_mark_seen ev fo p (append_line (entry_line prefix (rest = []) p True) st)
             = Inl e"
  shows "walk_entries n ev flt md fo prefix depth ((p, True) # rest) st = Some (Inl e)"
  using assms by (simp add: Let_def)

lemma walk_entries_dir_seen:
  assumes "follow_and_mark_seen ev fo p (append_line (entry_line prefix (rest = []) p True) st)
             = Inr (True, st2)"
  shows "walk_entries n ev flt md fo prefix depth ((p, True) # rest) st
       = walk_entries n ev flt md fo prefix depth rest
           (append_line (cycle_line prefix (rest = [])) st2)"
  using assms by (simp add: Let_def)

lemma walk_entries_dir_new:
  assumes "follow_and_mark_seen ev fo p (append_line (entry_line prefix (rest = []) p True) st)
             = Inr (False, st2)"
  shows "walk_entries n ev flt md fo prefix depth ((p, True) # rest) st
       = (case walk n ev flt md fo p (prefix @ extension (rest = [])) (depth + 1) st2 of
            None \<Rightarrow> None
          | Some (Inl e) \<Rightarrow> Some (Inl e)
          | Some (Inr st3) \<Rightarrow> walk_entries n ev flt md fo prefix depth rest st3)"
  using assms by (simp add: Let_def)

lemma walk_listed:
  assumes "\<not> too_deep md depth"
  shows "walk (Suc n) ev flt md fo d prefix depth st
       = (case listing ev flt fo d of
            Inl e \<Rightarrow> Some (Inl e)
          | Inr es \<Rightarrow> walk_entries n ev flt md fo prefix depth es st)"
  using assms by simp

lemma walk_too_deep:
  assumes "too_deep md depth"
  shows "walk (Suc n) ev flt md fo d prefix depth st = Some (Inr st)"
  using assms by simp

declare walk.simps(2) [simp del] walk_entries.simps(2) [simp del]

text \<open>Induction over the calls of \<^verbatim>\<open>walk\<close> and the rounds of its loop.\<close>

lemma walk_induct:
  assumes P0: "\<And>d prefix depth st. P 0 d prefix depth st"
    and PS: "\<And>n d prefix depth st.
        (\<And>es. \<not> too_deep md depth \<Longrightarrow> listing ev flt fo d = Inr es \<Longrightarrow> Q n prefix depth es st)
        \<Longrightarrow> P (Suc n) d prefix depth st"
    and QN: "\<And>n prefix depth st. Q n prefix depth [] st"
    and QF: "\<And>n prefix depth p rest st.
        Q n prefix depth rest (append_line (entry_line prefix (rest = []) p False) st)
        \<Longrightarrow> Q n prefix depth ((p, False) # rest) st"
    and QD: "\<And>n prefix depth p rest st.
        (\<And>st2. follow_and_mark_seen ev fo p
                  (append_line (entry_line prefix (rest = []) p True) st) = Inr (True, st2)
           \<Longrightarrow> Q n prefix depth rest (append_line (cycle_line prefix (rest = [])) st2))
        \<Longrightarrow> (\<And>st2. follow_and_mark_seen ev fo p
                  (append_line (entry_line prefix (rest = []) p True) st) = Inr (False, st2)
           \<Longrightarrow> P n p (prefix @ extension (rest = [])) (depth + 1) st2)
        \<Longrightarrow> (\<And>st2 st3. follow_and_mark_seen ev fo p
                  (append_line (entry_line prefix (rest = []) p True) st) = Inr (False, st2)
           \<Longrightarrow> walk n ev flt md fo p (prefix @ extension (rest = [])) (depth + 1) st2
                 = Some (Inr st3)
           \<Longrightarrow> Q n prefix depth rest st3)
        \<Longrightarrow> Q n prefix depth ((p, True) # rest) st"
  shows "P n d prefix depth st \<and> Q n prefix' depth' es st'"
proof -
  have loop: "Q n prefix depth es st"
    if walks: "\<And>d prefix depth st. P n d prefix depth st" for n prefix depth es st
  proof (induction es arbitrary: st)
    case Nil
    show ?case by (rule QN)
  next
    case (Cons x rest)
    obtain p b where x: "x = (p, b)" by (cases x)
    show ?case
    proof (cases b)
      case False
      with x Cons show ?thesis by (simp add: QF)
    next
      case True
      have "Q n prefix depth ((p, True) # rest) st"
        by (rule QD) (rule Cons walks)+
      with x True show ?thesis by simp
    qed
  qed
  have walks: "P n d prefix depth st" for n d prefix depth st
  proof (induction n arbitrary: d prefix depth st)
    case 0
    show ?case by (rule P0)
  next
    case (Suc n)
    show ?case by (rule PS) (rule loop, rule Suc)
  qed
  from walks loop [OF walks] show ?thesis by blast
qed

section \<open>The visited set\<close>

lemma seen_append_line: "seen (append_line l st) = seen st"
  by (simp add: seen_def append_line_def)

lemma lines_append_line: "lines (append_line l st) = lines st @ [l]"
  by (simp add: append_line_def)

lemma mark_seen_realpath_result:
  "mark_seen_realpath ev p st = Inr (b, st2) \<longleftrightarrow>
     (\<exists>i. realpath_identity ev p = Inr i \<and> b = (i \<in> seen st)
        \<and> st2 = (if b then st else st\<lparr>seen_realpaths := insert (path_str (projr (resolve ev p)))
                                           (seen_realpaths st)\<rparr>))"
  by (cases "resolve ev p")
     (auto simp: mark_seen_realpath_def realpath_identity_def seen_def Let_def)

lemma mark_seen_realpath_raises:
  "mark_seen_realpath ev p st = Inl e \<longleftrightarrow> realpath_identity ev p = Inl e"
  by (cases "resolve ev p")
     (auto simp: mark_seen_realpath_def realpath_identity_def Let_def)

lemma mark_seen_raises: "mark_seen ev p st = Inl e \<longleftrightarrow> identity ev p = Inl e"
  by (cases "stat ev p")
     (auto simp: mark_seen_def identity_def Let_def mark_seen_realpath_raises)

lemma mark_seen_result:
  assumes "mark_seen ev p st = Inr (b, st2)"
  shows "\<exists>i. identity ev p = Inr i \<and> b = (i \<in> seen st) \<and> seen st2 = insert i (seen st)
            \<and> lines st2 = lines st \<and> (b \<longrightarrow> st2 = st)"
proof (cases "stat ev p")
  case (Inl e)
  with assms have m: "mark_seen_realpath ev p st = Inr (b, st2)" and id: "identity ev p = realpath_identity ev p"
    by (auto simp: mark_seen_def identity_def split: if_splits)
  from m [unfolded mark_seen_realpath_result] id show ?thesis
    by (cases "resolve ev p") (auto simp: seen_def realpath_identity_def)
next
  case (Inr sr)
  let ?key = "(getattr (st_dev sr) (- 1), getattr (st_ino sr) (- 1))"
  show ?thesis
  proof (cases "?key \<noteq> (- 1, - 1)")
    case True
    with Inr assms show ?thesis
      by (auto simp: mark_seen_def identity_def Let_def seen_def split: if_splits)
  next
    case False
    with Inr assms have m: "mark_seen_realpath ev p st = Inr (b, st2)"
      and id: "identity ev p = realpath_identity ev p"
      by (auto simp: mark_seen_def identity_def Let_def)
    from m [unfolded mark_seen_realpath_result] id show ?thesis
      by (cases "resolve ev p") (auto simp: seen_def realpath_identity_def)
  qed
qed

lemma mark_seen_total:
  "(\<exists>e. mark_seen ev p st = Inl e \<and> identity ev p = Inl e)
   \<or> (\<exists>i st2. mark_seen ev p st = Inr (i \<in> seen st, st2) \<and> identity ev p = Inr i)"
proof (cases "mark_seen ev p st")
  case (Inl e)
  then show ?thesis by (simp add: mark_seen_raises)
next
  case (Inr r)
  obtain b st2 where "r = (b, st2)" by (cases r)
  with Inr mark_seen_result [of ev p st b st2] show ?thesis by auto
qed

lemma mark_seen_old:
  assumes "identity ev p = Inr i" and "i \<in> seen st"
  shows "mark_seen ev p st = Inr (True, st)"
proof -
  from mark_seen_total [of ev p st] assms obtain st2 where
    m: "mark_seen ev p st = Inr (True, st2)" by auto
  from mark_seen_result [OF m] have "st2 = st" by auto
  with m show ?thesis by simp
qed

lemma mark_seen_new:
  assumes "identity ev p = Inr i" and "i \<notin> seen st"
  shows "\<exists>st2. mark_seen ev p st = Inr (False, st2) \<and> seen st2 = insert i (seen st)
             \<and> lines st2 = lines st"
proof -
  from mark_seen_total [of ev p st] assms obtain st2 where
    m: "mark_seen ev p st = Inr (False, st2)" by auto
  from mark_seen_result [OF m] assms(1) m show ?thesis by auto
qed

lemma follow_and_mark_seen_result:
  assumes "follow_and_mark_seen ev fo p st = Inr (b, st2)"
  shows "lines st2 = lines st \<and> seen st \<subseteq> seen st2 \<and> (b \<longrightarrow> st2 = st)"
proof (cases fo)
  case True
  with assms have "mark_seen ev p st = Inr (b, st2)" by (simp add: follow_and_mark_seen_def)
  from mark_seen_result [OF this] show ?thesis by auto
next
  case False
  with assms show ?thesis by (simp add: follow_and_mark_seen_def)
qed

section \<open>What raises\<close>










section \<open>More fuel never changes a result\<close>

lemma walk_fuel_mono_both:
  "(\<forall>r. walk n ev flt md fo d prefix depth st = Some r
        \<longrightarrow> walk (n + k) ev flt md fo d prefix depth st = Some r)
   \<and> (\<forall>r. walk_entries n ev flt md fo prefix' depth' es st' = Some r
        \<longrightarrow> walk_entries (n + k) ev flt md fo prefix' depth' es st' = Some r)"
proof (rule walk_induct [where ev = ev and flt = flt and md = md and fo = fo
      and P = "\<lambda>n d prefix depth st. \<forall>r. walk n ev flt md fo d prefix depth st = Some r
                 \<longrightarrow> walk (n + k) ev flt md fo d prefix depth st = Some r"
      and Q = "\<lambda>n prefix depth es st. \<forall>r. walk_entries n ev flt md fo prefix depth es st = Some r
                 \<longrightarrow> walk_entries (n + k) ev flt md fo prefix depth es st = Some r"],
    goal_cases)
  case (1 d prefix depth st)
  show ?case by simp
next
  case (2 n d prefix depth st)
  show ?case
  proof (cases "too_deep md depth")
    case True
    then show ?thesis by (simp add: walk_too_deep)
  next
    case False
    show ?thesis
    proof (cases "listing ev flt fo d")
      case (Inl e')
      with False show ?thesis by (simp add: walk_listed)
    next
      case (Inr es)
      with False 2 [OF False Inr] show ?thesis by (simp add: walk_listed)
    qed
  qed
next
  case (3 n prefix depth st)
  show ?case by simp
next
  case (4 n prefix depth p rest st)
  then show ?case by (simp add: walk_entries_file)
next
  case (5 n prefix depth p rest st)
  let ?fm = "follow_and_mark_seen ev fo p (append_line (entry_line prefix (rest = []) p True) st)"
  show ?case
  proof (cases ?fm)
    case (Inl e')
    then show ?thesis by (simp add: walk_entries_dir_raises)
  next
    case (Inr r)
    obtain b st2 where r: "r = (b, st2)" by (cases r)
    show ?thesis
    proof (cases b)
      case True
      with Inr r have fm: "?fm = Inr (True, st2)" by simp
      from 5(1) [OF fm] show ?thesis by (simp add: walk_entries_dir_seen [OF fm])
    next
      case False
      with Inr r have fm: "?fm = Inr (False, st2)" by simp
      show ?thesis
      proof (cases "walk n ev flt md fo p (prefix @ extension (rest = [])) (depth + 1) st2")
        case None
        then show ?thesis by (simp add: walk_entries_dir_new [OF fm])
      next
        case (Some w)
        with 5(2) [OF fm]
        have w': "walk (n + k) ev flt md fo p (prefix @ extension (rest = [])) (depth + 1) st2
            = Some w" by simp
        show ?thesis
        proof (cases w)
          case (Inl e')
          with Some w' show ?thesis by (simp add: walk_entries_dir_new [OF fm])
        next
          case (Inr st3)
          with Some w' 5(3) [OF fm] show ?thesis by (simp add: walk_entries_dir_new [OF fm])
        qed
      qed
    qed
  qed
qed

lemma walk_fuel_mono:
  "walk n ev flt md fo d prefix depth st = Some r \<Longrightarrow>
     walk (n + k) ev flt md fo d prefix depth st = Some r"
  using walk_fuel_mono_both [of n ev flt md fo d prefix depth st k] by blast

lemma tree_body_fuel_mono:
  assumes "tree_body n ev root flt md fo st = Some r"
  shows "tree_body (n + k) ev root flt md fo st = Some r"
  using assms
  by (auto simp: tree_body_def Let_def walk_fuel_mono split: sum.splits if_splits prod.splits)

lemma tree_fuel_mono:
  assumes "tree n ev root flt md fo = Some r"
  shows "tree (n + k) ev root flt md fo = Some r"
proof -
  from assms obtain b where b: "tree_body n ev root flt md fo fresh_state = Some b"
    by (auto simp: tree_def split: option.splits)
  from tree_body_fuel_mono [OF b, of k] assms b show ?thesis by (simp add: tree_def)
qed

section \<open>The visited set only grows\<close>

lemma walk_seen_mono_both:
  "(\<forall>st2. walk n ev flt md fo d prefix depth st = Some (Inr st2) \<longrightarrow> seen st \<subseteq> seen st2)
   \<and> (\<forall>st2. walk_entries n ev flt md fo prefix' depth' es st' = Some (Inr st2)
          \<longrightarrow> seen st' \<subseteq> seen st2)"
proof (rule walk_induct [where ev = ev and flt = flt and md = md and fo = fo
      and P = "\<lambda>n d prefix depth st. \<forall>st2. walk n ev flt md fo d prefix depth st = Some (Inr st2)
                 \<longrightarrow> seen st \<subseteq> seen st2"
      and Q = "\<lambda>n prefix depth es st. \<forall>st2.
                 walk_entries n ev flt md fo prefix depth es st = Some (Inr st2)
                 \<longrightarrow> seen st \<subseteq> seen st2"],
    goal_cases)
  case (1 d prefix depth st)
  show ?case by simp
next
  case (2 n d prefix depth st)
  show ?case
  proof (cases "too_deep md depth")
    case True
    then show ?thesis by (simp add: walk_too_deep)
  next
    case False
    show ?thesis
    proof (cases "listing ev flt fo d")
      case (Inl e')
      with False show ?thesis by (simp add: walk_listed)
    next
      case (Inr es)
      with False 2 [OF False Inr] show ?thesis by (simp add: walk_listed)
    qed
  qed
next
  case (3 n prefix depth st)
  show ?case by simp
next
  case (4 n prefix depth p rest st)
  then show ?case by (simp add: walk_entries_file seen_append_line)
next
  case (5 n prefix depth p rest st)
  let ?st1 = "append_line (entry_line prefix (rest = []) p True) st"
  let ?fm = "follow_and_mark_seen ev fo p ?st1"
  show ?case
  proof (cases ?fm)
    case (Inl e')
    then show ?thesis by (simp add: walk_entries_dir_raises)
  next
    case (Inr r)
    obtain b st2 where r: "r = (b, st2)" by (cases r)
    with Inr have "?fm = Inr (b, st2)" by simp
    from follow_and_mark_seen_result [OF this]
    have s2: "seen st \<subseteq> seen st2" by (simp add: seen_append_line)
    show ?thesis
    proof (cases b)
      case True
      with Inr r have fm: "?fm = Inr (True, st2)" by simp
      from 5(1) [OF fm] s2 show ?thesis
        by (auto simp: walk_entries_dir_seen [OF fm] seen_append_line)
    next
      case False
      with Inr r have fm: "?fm = Inr (False, st2)" by simp
      show ?thesis
      proof (cases "walk n ev flt md fo p (prefix @ extension (rest = [])) (depth + 1) st2")
        case None
        then show ?thesis by (simp add: walk_entries_dir_new [OF fm])
      next
        case (Some w)
        show ?thesis
        proof (cases w)
          case (Inl e')
          with Some show ?thesis by (simp add: walk_entries_dir_new [OF fm])
        next
          case (Inr st3)
          with Some 5(2) [OF fm] have "seen st2 \<subseteq> seen st3" by simp
          with Some Inr 5(3) [OF fm] s2 show ?thesis
            by (auto simp: walk_entries_dir_new [OF fm])
        qed
      qed
    qed
  qed
qed

lemma walk_seen_mono:
  "walk n ev flt md fo d prefix depth st = Some (Inr st2) \<Longrightarrow> seen st \<subseteq> seen st2"
  using walk_seen_mono_both [of n ev flt md fo d prefix depth st] by blast

lemma walk_entries_seen_mono:
  "walk_entries n ev flt md fo prefix depth es st = Some (Inr st2) \<Longrightarrow> seen st \<subseteq> seen st2"
  using walk_seen_mono_both [of n ev flt md fo _ _ _ _ prefix depth es st] by blast

section \<open>The entries of one directory\<close>

lemma filter_entries_result:
  "filter_entries ev flt xs = Inr ys \<Longrightarrow>
     ys = filter (\<lambda>(p, is_dir). should_ignore ev p flt = Inr False) xs"
proof (induction xs arbitrary: ys)
  case Nil
  then show ?case by simp
next
  case (Cons x xs)
  obtain p b where x: "x = (p, b)" by (cases x)
  from Cons.prems x obtain ig kept where
    ig: "should_ignore ev p flt = Inr ig" and kept: "filter_entries ev flt xs = Inr kept"
    and ys: "ys = (if ig then kept else (p, b) # kept)"
    by (auto split: sum.splits)
  from Cons.IH [OF kept] ig ys x show ?case by auto
qed

lemma check_entries_dirs:
  "check_entries ev fo d names = Inr es \<Longrightarrow> (p, True) \<in> set es \<Longrightarrow>
     entry_is_dir ev p fo = Inr True"
proof (induction names arbitrary: es)
  case Nil
  then show ?case by simp
next
  case (Cons nm names)
  from Cons.prems(1) obtain b rest where
    b: "(case entry_is_dir ev (entry_path d nm) fo of Inr b \<Rightarrow> Inr b
          | Inl e \<Rightarrow> if is_OSError e then Inr False else Inl e) = Inr b"
    and rest: "check_entries ev fo d names = Inr rest"
    and es: "es = (entry_path d nm, b) # rest"
    by (auto simp: Let_def split: sum.splits)
  show ?case
  proof (cases "(p, True) \<in> set rest")
    case True
    from Cons.IH [OF rest True] show ?thesis .
  next
    case False
    with Cons.prems(2) es have "p = entry_path d nm" and "b" by auto
    with b show ?thesis by (auto split: sum.splits if_splits)
  qed
qed

lemma listing_sorted_dirs:
  assumes "listing ev flt fo d = Inr es"
  shows "sorted (map (entry_key ev) es)"
    and "(p, True) \<in> set es \<Longrightarrow> entry_is_dir ev p fo = Inr True"
proof -
  from assms obtain raw where raw: "scan_entries ev fo d = Inr raw"
    and f: "filter_entries ev flt (sort_key (entry_key ev) raw) = Inr es"
    by (auto simp: listing_def split: sum.splits)
  note es = filter_entries_result [OF f]
  show "sorted (map (entry_key ev) es)"
    unfolding es by (rule sorted_filter) (rule sorted_sort_key)
  obtain names en where s: "safe_scandir ev d = (names, en)" by (cases "safe_scandir ev d")
  with raw have c: "check_entries ev fo d names = Inr raw"
    by (auto simp: scan_entries_def split: sum.splits option.splits)
  assume "(p, True) \<in> set es"
  with es have "(p, True) \<in> set raw" by auto
  with c show "entry_is_dir ev p fo = Inr True" by (rule check_entries_dirs)
qed

section \<open>The lines of one directory\<close>

lemma starts_with_append: "starts_with q (q @ r)"
  by (simp add: starts_with_def)

lemma starts_with_trans: "starts_with (q @ x) l \<Longrightarrow> starts_with q l"
  unfolding starts_with_def
  by (metis append_eq_conv_conj append_take_drop_id append.assoc)

lemma starts_with_iff: "starts_with q l \<longleftrightarrow> (\<exists>r. l = q @ r)"
  unfolding starts_with_def by (metis append_eq_conv_conj append_take_drop_id)

lemma entry_line_not_below:
  "\<not> starts_with (q @ extension x) (entry_line q is_last p is_dir)"
  by (simp add: starts_with_def entry_line_def extension_def branch_last_def branch_tee_def)

lemma children_lines_start:
  assumes "length bs = length es"
    and "\<forall>b \<in> set bs. \<forall>l \<in> set b. \<exists>x. starts_with (q @ extension x) l"
    and "l \<in> set (children_lines q es bs)"
  shows "starts_with q l"
  using assms
proof (induction q es bs rule: children_lines.induct)
  case (1 q bs)
  then show ?case by simp
next
  case (2 q p is_dir rest)
  then show ?case by simp
next
  case (3 q p is_dir rest b bs)
  from "3.prems"(3) consider "l = entry_line q (rest = []) p is_dir" | "l \<in> set b"
    | "l \<in> set (children_lines q rest bs)" by auto
  then show ?case
  proof cases
    case 1
    then show ?thesis by (simp add: entry_line_def starts_with_append)
  next
    case 2
    with "3.prems"(2) obtain x where "starts_with (q @ extension x) l" by auto
    then show ?thesis by (rule starts_with_trans)
  next
    case 3
    from "3.prems"(1) have len: "length bs = length rest" by simp
    from "3.prems"(2) have
      bl: "\<forall>b \<in> set bs. \<forall>l \<in> set b. \<exists>x. starts_with (q @ extension x) l" by simp
    from "3.IH" [OF len bl 3] show ?thesis .
  qed
qed

lemma walk_lines_both:
  "(\<forall>st2. walk n ev flt md fo d q depth st = Some (Inr st2) \<longrightarrow>
       (\<exists>new. lines st2 = lines st @ new \<and> (\<forall>l \<in> set new. starts_with q l)))
   \<and> (\<forall>st2. walk_entries n ev flt md fo q' depth' es st' = Some (Inr st2) \<longrightarrow>
       (\<exists>bs. length bs = length es \<and> lines st2 = lines st' @ children_lines q' es bs
          \<and> (\<forall>b \<in> set bs. \<forall>l \<in> set b. \<exists>x. starts_with (q' @ extension x) l)))"
proof (rule walk_induct [where ev = ev and flt = flt and md = md and fo = fo
      and P = "\<lambda>n d q depth st. \<forall>st2. walk n ev flt md fo d q depth st = Some (Inr st2) \<longrightarrow>
                 (\<exists>new. lines st2 = lines st @ new \<and> (\<forall>l \<in> set new. starts_with q l))"
      and Q = "\<lambda>n q depth es st. \<forall>st2.
                 walk_entries n ev flt md fo q depth es st = Some (Inr st2) \<longrightarrow>
                 (\<exists>bs. length bs = length es \<and> lines st2 = lines st @ children_lines q es bs
                    \<and> (\<forall>b \<in> set bs. \<forall>l \<in> set b. \<exists>x. starts_with (q @ extension x) l))"],
    goal_cases)
  case (1 d q depth st)
  show ?case by simp
next
  case (2 n d q depth st)
  show ?case
  proof (cases "too_deep md depth")
    case True
    then show ?thesis by (simp add: walk_too_deep)
  next
    case False
    show ?thesis
    proof (cases "listing ev flt fo d")
      case (Inl e')
      with False show ?thesis by (simp add: walk_listed)
    next
      case (Inr es)
      show ?thesis
      proof (intro allI impI)
        fix st2
        assume "walk (Suc n) ev flt md fo d q depth st = Some (Inr st2)"
        with False Inr have "walk_entries n ev flt md fo q depth es st = Some (Inr st2)"
          by (simp add: walk_listed)
        with 2 [OF False Inr] obtain bs where
          len: "length bs = length es" and l: "lines st2 = lines st @ children_lines q es bs"
          and b: "\<forall>b \<in> set bs. \<forall>l \<in> set b. \<exists>x. starts_with (q @ extension x) l" by blast
        have "\<forall>l \<in> set (children_lines q es bs). starts_with q l"
          using children_lines_start [OF len b] by blast
        with l show "\<exists>new. lines st2 = lines st @ new \<and> (\<forall>l \<in> set new. starts_with q l)"
          by blast
      qed
    qed
  qed
next
  case (3 n q depth st)
  show ?case by simp
next
  case (4 n q depth p rest st)
  let ?st1 = "append_line (entry_line q (rest = []) p False) st"
  show ?case
  proof (intro allI impI)
    fix st2
    assume "walk_entries n ev flt md fo q depth ((p, False) # rest) st = Some (Inr st2)"
    then have "walk_entries n ev flt md fo q depth rest ?st1 = Some (Inr st2)"
      by (simp add: walk_entries_file)
    with 4 obtain bs where
      len: "length bs = length rest" and l: "lines st2 = lines ?st1 @ children_lines q rest bs"
      and b: "\<forall>b \<in> set bs. \<forall>l \<in> set b. \<exists>x. starts_with (q @ extension x) l" by blast
    show "\<exists>bs. length bs = length ((p, False) # rest)
        \<and> lines st2 = lines st @ children_lines q ((p, False) # rest) bs
        \<and> (\<forall>b \<in> set bs. \<forall>l \<in> set b. \<exists>x. starts_with (q @ extension x) l)"
    proof (intro exI [of _ "[] # bs"] conjI)
      show "length ([] # bs) = length ((p, False) # rest)" using len by simp
      show "lines st2 = lines st @ children_lines q ((p, False) # rest) ([] # bs)"
        using l by (simp add: lines_append_line)
      show "\<forall>b \<in> set ([] # bs). \<forall>l \<in> set b. \<exists>x. starts_with (q @ extension x) l"
        using b by simp
    qed
  qed
next
  case (5 n q depth p rest st)
  let ?l = "rest = []"
  let ?st1 = "append_line (entry_line q ?l p True) st"
  let ?fm = "follow_and_mark_seen ev fo p ?st1"
  show ?case
  proof (cases ?fm)
    case (Inl e')
    then show ?thesis by (simp add: walk_entries_dir_raises)
  next
    case (Inr r)
    obtain b st2 where r: "r = (b, st2)" by (cases r)
    with Inr have "?fm = Inr (b, st2)" by simp
    from follow_and_mark_seen_result [OF this]
    have l2: "lines st2 = lines st @ [entry_line q ?l p True]"
      by (simp add: lines_append_line)
    show ?thesis
    proof (cases b)
      case True
      with Inr r have fm: "?fm = Inr (True, st2)" by simp
      let ?st3 = "append_line (cycle_line q ?l) st2"
      show ?thesis
      proof (intro allI impI)
        fix st9
        assume "walk_entries n ev flt md fo q depth ((p, True) # rest) st = Some (Inr st9)"
        then have "walk_entries n ev flt md fo q depth rest ?st3 = Some (Inr st9)"
          by (simp add: walk_entries_dir_seen [OF fm])
        with 5(1) [OF fm] obtain bs where
          len: "length bs = length rest"
          and l: "lines st9 = lines ?st3 @ children_lines q rest bs"
          and bl: "\<forall>b \<in> set bs. \<forall>l \<in> set b. \<exists>x. starts_with (q @ extension x) l" by blast
        show "\<exists>bs. length bs = length ((p, True) # rest)
            \<and> lines st9 = lines st @ children_lines q ((p, True) # rest) bs
            \<and> (\<forall>b \<in> set bs. \<forall>l \<in> set b. \<exists>x. starts_with (q @ extension x) l)"
        proof (intro exI [of _ "[cycle_line q ?l] # bs"] conjI)
          show "length ([cycle_line q ?l] # bs) = length ((p, True) # rest)" using len by simp
          show "lines st9 = lines st @ children_lines q ((p, True) # rest) ([cycle_line q ?l] # bs)"
            using l l2 by (simp add: lines_append_line)
          have "starts_with (q @ extension ?l) (cycle_line q ?l)"
            by (simp add: cycle_line_def starts_with_def)
          then show "\<forall>b \<in> set ([cycle_line q ?l] # bs). \<forall>l \<in> set b.
              \<exists>x. starts_with (q @ extension x) l"
            using bl by auto
        qed
      qed
    next
      case False
      with Inr r have fm: "?fm = Inr (False, st2)" by simp
      let ?w = "walk n ev flt md fo p (q @ extension ?l) (depth + 1) st2"
      show ?thesis
      proof (intro allI impI)
        fix st9
        assume a: "walk_entries n ev flt md fo q depth ((p, True) # rest) st = Some (Inr st9)"
        then obtain st3 where w: "?w = Some (Inr st3)"
          and e: "walk_entries n ev flt md fo q depth rest st3 = Some (Inr st9)"
          by (auto simp: walk_entries_dir_new [OF fm] split: option.splits sum.splits)
        from 5(2) [OF fm] w obtain new_lines where
          l3: "lines st3 = lines st2 @ new_lines"
          and n3: "\<forall>l \<in> set new_lines. starts_with (q @ extension ?l) l" by blast
        from 5(3) [OF fm w] e obtain bs where
          len: "length bs = length rest"
          and l: "lines st9 = lines st3 @ children_lines q rest bs"
          and bl: "\<forall>b \<in> set bs. \<forall>l \<in> set b. \<exists>x. starts_with (q @ extension x) l" by blast
        show "\<exists>bs. length bs = length ((p, True) # rest)
            \<and> lines st9 = lines st @ children_lines q ((p, True) # rest) bs
            \<and> (\<forall>b \<in> set bs. \<forall>l \<in> set b. \<exists>x. starts_with (q @ extension x) l)"
        proof (intro exI [of _ "new_lines # bs"] conjI)
          show "length (new_lines # bs) = length ((p, True) # rest)" using len by simp
          show "lines st9 = lines st @ children_lines q ((p, True) # rest) (new_lines # bs)"
            using l l3 l2 by simp
          show "\<forall>b \<in> set (new_lines # bs). \<forall>l \<in> set b.
              \<exists>x. starts_with (q @ extension x) l"
            using bl n3 by auto
        qed
      qed
    qed
  qed
qed

lemma walk_entries_lines:
  assumes "walk_entries n ev flt md fo q depth es st = Some (Inr st2)"
  shows "\<exists>bs. length bs = length es \<and> lines st2 = lines st @ children_lines q es bs
          \<and> (\<forall>b \<in> set bs. \<forall>l \<in> set b. \<exists>x. starts_with (q @ extension x) l)"
  using walk_lines_both [of n ev flt md fo _ _ _ _ q depth es st] assms by blast

lemma walk_lines_grow:
  assumes "walk n ev flt md fo d q depth st = Some (Inr st2)"
  shows "starts_with (lines st) (lines st2)"
proof -
  from walk_lines_both [of n ev flt md fo d q depth st] assms
  obtain new where "lines st2 = lines st @ new" by blast
  then show ?thesis by (simp add: starts_with_append)
qed

lemma walk_entries_lines_grow:
  assumes "walk_entries n ev flt md fo q depth es st = Some (Inr st2)"
  shows "starts_with (lines st) (lines st2)"
proof -
  from walk_entries_lines [OF assms]
  obtain bs where "lines st2 = lines st @ children_lines q es bs" by blast
  then show ?thesis by (simp add: starts_with_append)
qed

section \<open>The body of \<^verbatim>\<open>tree\<close>\<close>

lemma tree_body_resolve_raises:
  "resolve ev root = Inl e \<Longrightarrow> tree_body n ev root flt md fo st = Some (Inl e)"
  by (simp add: tree_body_def)

lemma tree_body_exists_raises:
  "resolve ev root = Inr r \<Longrightarrow> path_exists ev r = Inl e \<Longrightarrow>
     tree_body n ev root flt md fo st = Some (Inl e)"
  by (simp add: tree_body_def)

lemma tree_body_missing:
  "resolve ev root = Inr r \<Longrightarrow> path_exists ev r = Inr False \<Longrightarrow>
     tree_body n ev root flt md fo st = Some (Inl FileNotFoundError)"
  by (simp add: tree_body_def)

lemma tree_body_is_dir_raises:
  "resolve ev root = Inr r \<Longrightarrow> path_exists ev r = Inr True \<Longrightarrow> path_is_dir ev r = Inl e \<Longrightarrow>
     tree_body n ev root flt md fo st = Some (Inl e)"
  by (simp add: tree_body_def)

lemma tree_body_not_dir:
  "resolve ev root = Inr r \<Longrightarrow> path_exists ev r = Inr True \<Longrightarrow> path_is_dir ev r = Inr False \<Longrightarrow>
     tree_body n ev root flt md fo st = Some (Inl NotADirectoryError)"
  by (simp add: tree_body_def)

lemma tree_body_reset:
  "st\<lparr>lines := [], seen_dirs := {}, seen_realpaths := {}\<rparr> = fresh_state"
  by (simp add: fresh_state_def)

lemma tree_body_mark_raises:
  "resolve ev root = Inr r \<Longrightarrow> path_exists ev r = Inr True \<Longrightarrow> path_is_dir ev r = Inr True \<Longrightarrow>
     follow_and_mark_seen ev fo r (append_line (path_str r @ ''/'') fresh_state) = Inl e \<Longrightarrow>
     tree_body n ev root flt md fo st = Some (Inl e)"
  by (simp add: tree_body_def tree_body_reset)

lemma tree_body_walk:
  "resolve ev root = Inr r \<Longrightarrow> path_exists ev r = Inr True \<Longrightarrow> path_is_dir ev r = Inr True \<Longrightarrow>
     follow_and_mark_seen ev fo r (append_line (path_str r @ ''/'') fresh_state) = Inr (b, st1) \<Longrightarrow>
     tree_body n ev root flt md fo st = walk n ev flt md fo r [] 1 st1"
  by (simp add: tree_body_def tree_body_reset)

text \<open>The ways a call of \<^verbatim>\<open>tree\<close> can go.\<close>

lemma tree_body_cases:
  obtains (resolve_raises) e where "resolve ev root = Inl e"
  | (exists_raises) r e where "resolve ev root = Inr r" "path_exists ev r = Inl e"
  | (missing) r where "resolve ev root = Inr r" "path_exists ev r = Inr False"
  | (is_dir_raises) r e where "resolve ev root = Inr r" "path_exists ev r = Inr True"
      "path_is_dir ev r = Inl e"
  | (not_dir) r where "resolve ev root = Inr r" "path_exists ev r = Inr True"
      "path_is_dir ev r = Inr False"
  | (mark_raises) r e where "resolve ev root = Inr r" "path_exists ev r = Inr True"
      "path_is_dir ev r = Inr True"
      "follow_and_mark_seen ev fo r (append_line (path_str r @ ''/'') fresh_state) = Inl e"
  | (walks) r b st1 where "resolve ev root = Inr r" "path_exists ev r = Inr True"
      "path_is_dir ev r = Inr True"
      "follow_and_mark_seen ev fo r (append_line (path_str r @ ''/'') fresh_state) = Inr (b, st1)"
proof (cases "resolve ev root")
  case (Inl e)
  then show ?thesis by (rule resolve_raises)
next
  case r: (Inr r)
  show ?thesis
  proof (cases "path_exists ev r")
    case (Inl e)
    with r show ?thesis by (rule exists_raises)
  next
    case ex: (Inr ex)
    show ?thesis
    proof (cases ex)
      case False
      with r ex show ?thesis by (intro missing) simp_all
    next
      case True
      with ex have ex': "path_exists ev r = Inr True" by simp
      show ?thesis
      proof (cases "path_is_dir ev r")
        case (Inl e)
        with r ex' show ?thesis by (rule is_dir_raises)
      next
        case isd: (Inr isd)
        show ?thesis
        proof (cases isd)
          case False
          with r ex' isd show ?thesis by (intro not_dir) simp_all
        next
          case True
          with isd have isd': "path_is_dir ev r = Inr True" by simp
          show ?thesis
          proof (cases "follow_and_mark_seen ev fo r
                          (append_line (path_str r @ ''/'') fresh_state)")
            case (Inl e)
            with r ex' isd' show ?thesis by (rule mark_raises)
          next
            case (Inr x)
            obtain b st1 where "x = (b, st1)" by (cases x)
            with Inr r ex' isd' show ?thesis by (intro walks) simp_all
          qed
        qed
      qed
    qed
  qed
qed

lemma tree_body_independent:
  "tree_body n ev root flt md fo st = tree_body n ev root flt md fo st'"
  by (simp add: tree_body_def tree_body_reset)



section \<open>Termination when links are followed\<close>



section \<open>Absorbed failures\<close>












section \<open>The scenario disks\<close>





section \<open>The rounds of the loop, in order\<close>

lemma visits_entries_file:
  "visits_entries n ev flt md fo prefix depth ((p, False) # rest) st
     = visits_entries n ev flt md fo prefix depth rest
         (append_line (entry_line prefix (rest = []) p False) st)"
  by (simp add: Let_def)

lemma visits_entries_dir_raises:
  assumes "follow_and_mark_seen ev fo p (append_line (entry_line prefix (rest = []) p True) st)
             = Inl e"
  shows "visits_entries n ev flt md fo prefix depth ((p, True) # rest) st
       = [Visit n prefix depth p rest st]"
  using assms by (simp add: Let_def)

lemma visits_entries_dir_seen:
  assumes "follow_and_mark_seen ev fo p (append_line (entry_line prefix (rest = []) p True) st)
             = Inr (True, st2)"
  shows "visits_entries n ev flt md fo prefix depth ((p, True) # rest) st
       = Visit n prefix depth p rest st #
         visits_entries n ev flt md fo prefix depth rest
           (append_line (cycle_line prefix (rest = [])) st2)"
  using assms by (simp add: Let_def)

lemma visits_entries_dir_new:
  assumes "follow_and_mark_seen ev fo p (append_line (entry_line prefix (rest = []) p True) st)
             = Inr (False, st2)"
  shows "visits_entries n ev flt md fo prefix depth ((p, True) # rest) st
       = Visit n prefix depth p rest st #
         visits_walk n ev flt md fo p (prefix @ extension (rest = [])) (depth + 1) st2 @
         (case walk n ev flt md fo p (prefix @ extension (rest = [])) (depth + 1) st2 of
            Some (Inr st3) \<Rightarrow> visits_entries n ev flt md fo prefix depth rest st3
          | _ \<Rightarrow> [])"
  using assms by (simp add: Let_def)

lemma visits_walk_listed:
  assumes "\<not> too_deep md depth"
  shows "visits_walk (Suc n) ev flt md fo d prefix depth st
       = (case listing ev flt fo d of
            Inl e \<Rightarrow> []
          | Inr es \<Rightarrow> visits_entries n ev flt md fo prefix depth es st)"
  using assms by simp

lemma visits_walk_too_deep:
  assumes "too_deep md depth"
  shows "visits_walk (Suc n) ev flt md fo d prefix depth st = []"
  using assms by simp

declare visits_walk.simps(2) [simp del] visits_entries.simps(2) [simp del]

lemma chain_append:
  "chain ev (xs @ ys) \<longleftrightarrow>
     chain ev xs \<and> chain ev ys \<and> (\<forall>v \<in> set xs. \<forall>w \<in> set ys. marked ev v \<subseteq> seen (v_state w))"
  by (induction xs) auto

lemma chain_nth:
  assumes "chain ev vs" and "i < j" and "j < length vs"
  shows "marked ev (vs ! i) \<subseteq> seen (v_state (vs ! j))"
  using assms
proof (induction vs arbitrary: i j)
  case Nil
  then show ?case by simp
next
  case (Cons v vs)
  from Cons.prems(2) obtain j' where j: "j = Suc j'" by (cases j) auto
  with Cons.prems(3) have j': "j' < length vs" by simp
  show ?case
  proof (cases i)
    case 0
    with j j' Cons.prems(1) show ?thesis by auto
  next
    case (Suc i')
    with j Cons.prems(2) have "i' < j'" by simp
    from Cons.IH [OF _ this j'] Cons.prems(1) Suc j show ?thesis by simp
  qed
qed

text \<open>Along the rounds the visited set grows.\<close>

lemma visits_grow_Nil: "visits_grow ev [] st result"
  by (simp add: visits_grow_def)

lemma visits_grow_both:
  "visits_grow ev (visits_walk n ev flt md True d prefix depth st) st
     (walk n ev flt md True d prefix depth st)
   \<and> visits_grow ev (visits_entries n ev flt md True prefix' depth' es st') st'
       (walk_entries n ev flt md True prefix' depth' es st')"
proof (rule walk_induct [where ev = ev and flt = flt and md = md and fo = True
      and P = "\<lambda>n d prefix depth st.
                 visits_grow ev (visits_walk n ev flt md True d prefix depth st) st
                   (walk n ev flt md True d prefix depth st)"
      and Q = "\<lambda>n prefix depth es st.
                 visits_grow ev (visits_entries n ev flt md True prefix depth es st) st
                   (walk_entries n ev flt md True prefix depth es st)"],
    goal_cases)
  case (1 d prefix depth st)
  show ?case by (simp add: visits_grow_Nil)
next
  case (2 n d prefix depth st)
  show ?case
  proof (cases "too_deep md depth")
    case True
    then show ?thesis by (simp add: visits_walk_too_deep visits_grow_Nil)
  next
    case False
    show ?thesis
    proof (cases "listing ev flt True d")
      case (Inl e')
      with False show ?thesis by (simp add: visits_walk_listed visits_grow_Nil)
    next
      case (Inr es)
      with False 2 [OF False Inr] show ?thesis by (simp add: visits_walk_listed walk_listed)
    qed
  qed
next
  case (3 n prefix depth st)
  show ?case by (simp add: visits_grow_Nil)
next
  case (4 n prefix depth p rest st)
  then show ?case
    by (simp add: visits_entries_file walk_entries_file visits_grow_def seen_append_line)
next
  case (5 n prefix depth p rest st)
  let ?st1 = "append_line (entry_line prefix (rest = []) p True) st"
  let ?fm = "follow_and_mark_seen ev True p ?st1"
  let ?v = "Visit n prefix depth p rest st"
  show ?case
  proof (cases ?fm)
    case (Inl e')
    then show ?thesis
      by (simp add: visits_entries_dir_raises walk_entries_dir_raises visits_grow_def)
  next
    case (Inr r)
    obtain b st2 where r: "r = (b, st2)" by (cases r)
    with Inr have "mark_seen ev p ?st1 = Inr (b, st2)"
      by (simp add: follow_and_mark_seen_def)
    from mark_seen_result [OF this] obtain i where
      i: "identity ev p = Inr i" and b: "b = (i \<in> seen st)"
      and s2: "seen st2 = insert i (seen st)" by (auto simp: seen_append_line)
    from i have mv: "marked ev ?v = insert i (seen st)" by (auto simp: marked_def)
    show ?thesis
    proof (cases b)
      case True
      with Inr r have fm: "?fm = Inr (True, st2)" by simp
      let ?st3 = "append_line (cycle_line prefix (rest = [])) st2"
      let ?vs = "visits_entries n ev flt md True prefix depth rest ?st3"
      let ?res = "walk_entries n ev flt md True prefix depth rest ?st3"
      have s3: "seen ?st3 = insert i (seen st)" by (simp add: seen_append_line s2)
      from 5(1) [OF fm] have g: "visits_grow ev ?vs ?st3 ?res" .
      have "visits_grow ev (?v # ?vs) st ?res"
        unfolding visits_grow_def
      proof (intro conjI allI impI ballI)
        fix v assume "v \<in> set (?v # ?vs)"
        with g s3 show "seen st \<subseteq> seen (v_state v)" by (auto simp: visits_grow_def)
      next
        fix st9 v assume res: "?res = Some (Inr st9)" and v: "v \<in> set (?v # ?vs)"
        from walk_entries_seen_mono [OF res] s3 mv have "marked ev ?v \<subseteq> seen st9" by simp
        with g res v show "marked ev v \<subseteq> seen st9" by (auto simp: visits_grow_def)
      next
        from g s3 mv show "chain ev (?v # ?vs)" by (auto simp: visits_grow_def)
      qed
      then show ?thesis
        by (simp add: visits_entries_dir_seen [OF fm] walk_entries_dir_seen [OF fm])
    next
      case False
      with Inr r have fm: "?fm = Inr (False, st2)" by simp
      let ?w = "walk n ev flt md True p (prefix @ extension (rest = [])) (depth + 1) st2"
      let ?sub = "visits_walk n ev flt md True p (prefix @ extension (rest = [])) (depth + 1) st2"
      from 5(2) [OF fm] have gs: "visits_grow ev ?sub st2 ?w" .
      from mv s2 have mv2: "marked ev ?v = seen st2" by simp
      show ?thesis
      proof (cases ?w)
        case None
        have "visits_grow ev (?v # ?sub) st None"
          unfolding visits_grow_def using gs mv2 s2
          by (auto simp: visits_grow_def)
        with None show ?thesis
          by (simp add: visits_entries_dir_new [OF fm] walk_entries_dir_new [OF fm])
      next
        case (Some x)
        show ?thesis
        proof (cases x)
          case (Inl e')
          have "visits_grow ev (?v # ?sub) st (Some (Inl e'))"
            unfolding visits_grow_def using gs mv2 s2
            by (auto simp: visits_grow_def)
          with Some Inl show ?thesis
            by (simp add: visits_entries_dir_new [OF fm] walk_entries_dir_new [OF fm])
        next
          case (Inr st3)
          with Some have w3: "?w = Some (Inr st3)" by simp
          let ?vs = "visits_entries n ev flt md True prefix depth rest st3"
          let ?res = "walk_entries n ev flt md True prefix depth rest st3"
          from 5(3) [OF fm w3] have g: "visits_grow ev ?vs st3 ?res" .
          from walk_seen_mono [OF w3] have s23: "seen st2 \<subseteq> seen st3" .
          from gs w3 have sub3: "\<forall>v \<in> set ?sub. marked ev v \<subseteq> seen st3"
            by (simp add: visits_grow_def)
          from g have rest3: "\<forall>w \<in> set ?vs. seen st3 \<subseteq> seen (v_state w)"
            by (simp add: visits_grow_def)
          have "visits_grow ev (?v # ?sub @ ?vs) st ?res"
            unfolding visits_grow_def
          proof (intro conjI allI impI ballI)
            fix v assume "v \<in> set (?v # ?sub @ ?vs)"
            then consider "v = ?v" | "v \<in> set ?sub" | "v \<in> set ?vs" by auto
            then show "seen st \<subseteq> seen (v_state v)"
            proof cases
              case 1
              then show ?thesis by simp
            next
              case 2
              with gs s2 show ?thesis by (auto simp: visits_grow_def)
            next
              case 3
              with rest3 s23 s2 show ?thesis by auto
            qed
          next
            fix st9 v assume res: "?res = Some (Inr st9)" and v: "v \<in> set (?v # ?sub @ ?vs)"
            from walk_entries_seen_mono [OF res] have s39: "seen st3 \<subseteq> seen st9" .
            from v consider "v = ?v" | "v \<in> set ?sub" | "v \<in> set ?vs" by auto
            then show "marked ev v \<subseteq> seen st9"
            proof cases
              case 1
              with mv2 s23 s39 show ?thesis by auto
            next
              case 2
              with sub3 s39 show ?thesis by auto
            next
              case 3
              with g res show ?thesis by (auto simp: visits_grow_def)
            qed
          next
            have "chain ev (?sub @ ?vs)"
              unfolding chain_append using gs g sub3 rest3 by (auto simp: visits_grow_def)
            moreover have "\<forall>w \<in> set (?sub @ ?vs). marked ev ?v \<subseteq> seen (v_state w)"
              using gs rest3 s23 mv2 by (auto simp: visits_grow_def)
            ultimately show "chain ev (?v # ?sub @ ?vs)" by simp
          qed
          with w3 show ?thesis
            by (simp add: visits_entries_dir_new [OF fm] walk_entries_dir_new [OF fm])
        qed
      qed
    qed
  qed
qed

section \<open>The lines of a round are lines of the run\<close>

lemma starts_with_refl: "starts_with l l"
  by (simp add: starts_with_def)

lemma starts_with_trans2: "starts_with a b \<Longrightarrow> starts_with b c \<Longrightarrow> starts_with a c"
  by (auto simp: starts_with_iff)

lemma round_returns_grow:
  "round_returns ev flt md fo v ls \<Longrightarrow> starts_with ls ls' \<Longrightarrow> round_returns ev flt md fo v ls'"
  unfolding round_returns_def by (blast intro: starts_with_trans2)

lemma visits_return_both:
  "(\<forall>st9. walk n ev flt md fo d prefix depth st = Some (Inr st9) \<longrightarrow>
      (\<forall>v \<in> set (visits_walk n ev flt md fo d prefix depth st).
         round_returns ev flt md fo v (lines st9)))
   \<and> (\<forall>st9. walk_entries n ev flt md fo prefix' depth' es st' = Some (Inr st9) \<longrightarrow>
      (\<forall>v \<in> set (visits_entries n ev flt md fo prefix' depth' es st').
         round_returns ev flt md fo v (lines st9)))"
proof (rule walk_induct [where ev = ev and flt = flt and md = md and fo = fo
      and P = "\<lambda>n d prefix depth st.
                 \<forall>st9. walk n ev flt md fo d prefix depth st = Some (Inr st9) \<longrightarrow>
                   (\<forall>v \<in> set (visits_walk n ev flt md fo d prefix depth st).
                      round_returns ev flt md fo v (lines st9))"
      and Q = "\<lambda>n prefix depth es st.
                 \<forall>st9. walk_entries n ev flt md fo prefix depth es st = Some (Inr st9) \<longrightarrow>
                   (\<forall>v \<in> set (visits_entries n ev flt md fo prefix depth es st).
                      round_returns ev flt md fo v (lines st9))"],
    goal_cases)
  case (1 d prefix depth st)
  show ?case by simp
next
  case (2 n d prefix depth st)
  show ?case
  proof (cases "too_deep md depth")
    case True
    then show ?thesis by (simp add: visits_walk_too_deep)
  next
    case False
    show ?thesis
    proof (cases "listing ev flt fo d")
      case (Inl e')
      with False show ?thesis by (simp add: visits_walk_listed)
    next
      case (Inr es)
      with False 2 [OF False Inr] show ?thesis by (simp add: visits_walk_listed walk_listed)
    qed
  qed
next
  case (3 n prefix depth st)
  show ?case by simp
next
  case (4 n prefix depth p rest st)
  then show ?case by (simp add: visits_entries_file walk_entries_file)
next
  case (5 n prefix depth p rest st)
  let ?st1 = "append_line (entry_line prefix (rest = []) p True) st"
  let ?fm = "follow_and_mark_seen ev fo p ?st1"
  let ?v = "Visit n prefix depth p rest st"
  let ?all = "walk_entries n ev flt md fo prefix depth ((p, True) # rest) st"
  have head: "round_returns ev flt md fo ?v (lines st9)" if "?all = Some (Inr st9)" for st9
    unfolding round_returns_def using that by (auto simp: starts_with_refl)
  show ?case
  proof (cases ?fm)
    case (Inl e')
    then show ?thesis by (simp add: walk_entries_dir_raises)
  next
    case (Inr r)
    obtain b st2 where r: "r = (b, st2)" by (cases r)
    show ?thesis
    proof (cases b)
      case True
      with Inr r have fm: "?fm = Inr (True, st2)" by simp
      let ?st3 = "append_line (cycle_line prefix (rest = [])) st2"
      show ?thesis
      proof (intro allI impI ballI)
        fix st9 v
        assume res: "?all = Some (Inr st9)"
          and v: "v \<in> set (visits_entries n ev flt md fo prefix depth ((p, True) # rest) st)"
        from res have res': "walk_entries n ev flt md fo prefix depth rest ?st3 = Some (Inr st9)"
          by (simp add: walk_entries_dir_seen [OF fm])
        from v have "v = ?v \<or> v \<in> set (visits_entries n ev flt md fo prefix depth rest ?st3)"
          by (simp add: visits_entries_dir_seen [OF fm])
        then show "round_returns ev flt md fo v (lines st9)"
        proof
          assume "v = ?v"
          with head [OF res] show ?thesis by simp
        next
          assume "v \<in> set (visits_entries n ev flt md fo prefix depth rest ?st3)"
          with 5(1) [OF fm] res' show ?thesis by blast
        qed
      qed
    next
      case False
      with Inr r have fm: "?fm = Inr (False, st2)" by simp
      let ?w = "walk n ev flt md fo p (prefix @ extension (rest = [])) (depth + 1) st2"
      let ?sub = "visits_walk n ev flt md fo p (prefix @ extension (rest = [])) (depth + 1) st2"
      show ?thesis
      proof (intro allI impI ballI)
        fix st9 v
        assume res: "?all = Some (Inr st9)"
          and v: "v \<in> set (visits_entries n ev flt md fo prefix depth ((p, True) # rest) st)"
        from res obtain st3 where w3: "?w = Some (Inr st3)"
          and res': "walk_entries n ev flt md fo prefix depth rest st3 = Some (Inr st9)"
          by (auto simp: walk_entries_dir_new [OF fm] split: option.splits sum.splits)
        from v w3 have "v = ?v \<or> v \<in> set ?sub
            \<or> v \<in> set (visits_entries n ev flt md fo prefix depth rest st3)"
          by (auto simp: visits_entries_dir_new [OF fm])
        then consider "v = ?v" | "v \<in> set ?sub"
          | "v \<in> set (visits_entries n ev flt md fo prefix depth rest st3)" by blast
        then show "round_returns ev flt md fo v (lines st9)"
        proof cases
          case 1
          with head [OF res] show ?thesis by simp
        next
          case 2
          with 5(2) [OF fm] w3 have "round_returns ev flt md fo v (lines st3)" by blast
          from round_returns_grow [OF this walk_entries_lines_grow [OF res']] show ?thesis .
        next
          case 3
          with 5(3) [OF fm w3] res' show ?thesis by blast
        qed
      qed
    qed
  qed
qed

lemma visits_walk_return:
  assumes "walk n ev flt md fo d prefix depth st = Some (Inr st9)"
    and "v \<in> set (visits_walk n ev flt md fo d prefix depth st)"
  shows "round_returns ev flt md fo v (lines st9)"
  using visits_return_both [of n ev flt md fo d prefix depth st] assms by blast

lemma visits_walk_grow:
  "visits_grow ev (visits_walk n ev flt md True d prefix depth st) st
     (walk n ev flt md True d prefix depth st)"
  using visits_grow_both [of ev n flt md d prefix depth st] by blast

text \<open>The rounds of \<^verbatim>\<open>tree\<close> are those of the call of \<^verbatim>\<open>walk\<close> it ends with.\<close>

lemma visits_tree_walk:
  assumes "tree n ev root flt md fo = Some (Inr ls)"
  shows "\<exists>r b st1 st9. resolve ev root = Inr r
           \<and> follow_and_mark_seen ev fo r (append_line (path_str r @ ''/'') fresh_state)
               = Inr (b, st1)
           \<and> walk n ev flt md fo r [] 1 st1 = Some (Inr st9) \<and> lines st9 = ls
           \<and> visits_tree n ev root flt md fo = visits_walk n ev flt md fo r [] 1 st1"
proof -
  from assms obtain st9 where
    b: "tree_body n ev root flt md fo fresh_state = Some (Inr st9)" and l: "lines st9 = ls"
    by (auto simp: tree_def split: option.splits sum.splits)
  show ?thesis
  proof (cases rule: tree_body_cases [where ev = ev and root = root and fo = fo])
    case (resolve_raises e)
    from tree_body_resolve_raises [OF this] b show ?thesis by simp
  next
    case (exists_raises r e)
    from tree_body_exists_raises [OF this] b show ?thesis by simp
  next
    case (missing r)
    from tree_body_missing [OF this] b show ?thesis by simp
  next
    case (is_dir_raises r e)
    from tree_body_is_dir_raises [OF this] b show ?thesis by simp
  next
    case (not_dir r)
    from tree_body_not_dir [OF this] b show ?thesis by simp
  next
    case (mark_raises r e)
    from tree_body_mark_raises [OF this] b show ?thesis by simp
  next
    case (walks r b' st1)
    from tree_body_walk [OF this] b
    have w: "walk n ev flt md fo r [] 1 st1 = Some (Inr st9)" by simp
    from walks have "visits_tree n ev root flt md fo = visits_walk n ev flt md fo r [] 1 st1"
      by (simp add: visits_tree_def)
    with walks w l show ?thesis by blast
  qed
qed

text \<open>
  A round for a directory whose identity an earlier round of the same run had: its
  line, the cycle marker, and on to the next entry.
\<close>

lemma later_visit_cycle:
  assumes t: "tree n ev root flt md True = Some (Inr ls)"
    and ij: "i < j" "j < length (visits_tree n ev root flt md True)"
    and a: "identity ev (v_path (visits_tree n ev root flt md True ! i)) = Inr a"
           "identity ev (v_path (visits_tree n ev root flt md True ! j)) = Inr a"
  shows "walk_entries (v_fuel (visits_tree n ev root flt md True ! j)) ev flt md True
           (v_prefix (visits_tree n ev root flt md True ! j))
           (v_depth (visits_tree n ev root flt md True ! j))
           ((v_path (visits_tree n ev root flt md True ! j), True)
              # v_rest (visits_tree n ev root flt md True ! j))
           (v_state (visits_tree n ev root flt md True ! j))
         = walk_entries (v_fuel (visits_tree n ev root flt md True ! j)) ev flt md True
           (v_prefix (visits_tree n ev root flt md True ! j))
           (v_depth (visits_tree n ev root flt md True ! j))
           (v_rest (visits_tree n ev root flt md True ! j))
           (append_line (cycle_line (v_prefix (visits_tree n ev root flt md True ! j))
                           (v_rest (visits_tree n ev root flt md True ! j) = []))
              (append_line (entry_line (v_prefix (visits_tree n ev root flt md True ! j))
                              (v_rest (visits_tree n ev root flt md True ! j) = [])
                              (v_path (visits_tree n ev root flt md True ! j)) True)
                 (v_state (visits_tree n ev root flt md True ! j))))"
    (is "?L = ?R")
    and "\<exists>more. ls = lines (v_state (visits_tree n ev root flt md True ! j))
           @ [entry_line (v_prefix (visits_tree n ev root flt md True ! j))
                (v_rest (visits_tree n ev root flt md True ! j) = [])
                (v_path (visits_tree n ev root flt md True ! j)) True,
              cycle_line (v_prefix (visits_tree n ev root flt md True ! j))
                (v_rest (visits_tree n ev root flt md True ! j) = [])]
           @ more"
proof -
  let ?vs = "visits_tree n ev root flt md True"
  let ?v = "?vs ! j"
  let ?st1 = "append_line (entry_line (v_prefix ?v) (v_rest ?v = []) (v_path ?v) True) (v_state ?v)"
  let ?st2 = "append_line (cycle_line (v_prefix ?v) (v_rest ?v = [])) ?st1"
  from visits_tree_walk [OF t] obtain r b st1 st9 where
    w: "walk n ev flt md True r [] 1 st1 = Some (Inr st9)" and l: "lines st9 = ls"
    and vs: "?vs = visits_walk n ev flt md True r [] 1 st1" by blast
  from visits_walk_grow [of ev n flt md r "[]" 1 st1] vs have "chain ev ?vs"
    by (simp add: visits_grow_def)
  from chain_nth [OF this ij] a(1) have "a \<in> seen (v_state ?v)" by (auto simp: marked_def)
  then have "a \<in> seen ?st1" by (simp add: seen_append_line)
  from mark_seen_old [OF a(2) this]
  have fm: "follow_and_mark_seen ev True (v_path ?v) ?st1 = Inr (True, ?st1)"
    by (simp add: follow_and_mark_seen_def)
  from walk_entries_dir_seen [OF fm] show LR: "?L = ?R" .
  from ij have "?v \<in> set ?vs" by simp
  with vs have "?v \<in> set (visits_walk n ev flt md True r [] 1 st1)" by simp
  from visits_walk_return [OF w this] l obtain st_v where
    rv: "?L = Some (Inr st_v)" and sv: "starts_with (lines st_v) ls"
    by (auto simp: round_returns_def)
  from rv LR have "?R = Some (Inr st_v)" by simp
  from walk_entries_lines_grow [OF this] have "starts_with (lines ?st2) (lines st_v)" .
  from starts_with_trans2 [OF this sv] obtain more where "ls = lines ?st2 @ more"
    by (auto simp: starts_with_iff)
  then show "\<exists>more. ls = lines (v_state ?v)
           @ [entry_line (v_prefix ?v) (v_rest ?v = []) (v_path ?v) True,
              cycle_line (v_prefix ?v) (v_rest ?v = [])] @ more"
    by (simp add: lines_append_line)
qed

text \<open>The state a run ends with holds the identity of every round of the run.\<close>

lemma visits_tree_end:
  assumes "tree_body n ev root flt md True st0 = Some (Inr st9)"
    and "v \<in> set (visits_tree n ev root flt md True)"
    and "identity ev (v_path v) = Inr a"
  shows "a \<in> seen st9"
proof -
  from assms(1) have b: "tree_body n ev root flt md True fresh_state = Some (Inr st9)"
    by (simp add: tree_body_independent [of n ev root flt md True fresh_state st0])
  then have "tree n ev root flt md True = Some (Inr (lines st9))" by (simp add: tree_def)
  from visits_tree_walk [OF this] obtain r b' st1 st8 where
    r: "resolve ev root = Inr r"
    and fm: "follow_and_mark_seen ev True r (append_line (path_str r @ ''/'') fresh_state)
               = Inr (b', st1)"
    and vs: "visits_tree n ev root flt md True = visits_walk n ev flt md True r [] 1 st1"
    by blast
  from b r fm have ok: "path_exists ev r = Inr True \<and> path_is_dir ev r = Inr True"
    by (auto simp: tree_body_def Let_def split: sum.splits if_splits)
  from ok have ex: "path_exists ev r = Inr True" and dir: "path_is_dir ev r = Inr True"
    by simp_all
  from tree_body_walk [OF r ex dir fm, of n flt md fresh_state] b
  have w: "walk n ev flt md True r [] 1 st1 = Some (Inr st9)" by simp
  from visits_walk_grow [of ev n flt md r "[]" 1 st1] w vs assms(2)
  have "marked ev v \<subseteq> seen st9" by (simp add: visits_grow_def)
  with assms(3) show ?thesis by (auto simp: marked_def)
qed

section \<open>Lemmas about \<^verbatim>\<open>tree\<close> and the scenarios\<close>

lemma tree_walk:
  assumes "resolve ev root = Inr r" and "path_exists ev r = Inr True"
    and "path_is_dir ev r = Inr True"
    and "follow_and_mark_seen ev fo r (append_line (path_str r @ ''/'') fresh_state) = Inr (b, st1)"
  shows "tree n ev root flt md fo
       = (case walk n ev flt md fo r [] 1 st1 of
            None \<Rightarrow> None
          | Some (Inl e) \<Rightarrow> Some (Inl e)
          | Some (Inr st2) \<Rightarrow> Some (Inr (lines st2)))"
  unfolding tree_def tree_body_walk [OF assms] by (rule refl)

lemma tree_of_body:
  "tree n ev root flt md fo
     = (case tree_body n ev root flt md fo st of
          None \<Rightarrow> None
        | Some (Inl e) \<Rightarrow> Some (Inl e)
        | Some (Inr st2) \<Rightarrow> Some (Inr (lines st2)))"
  unfolding tree_def tree_body_independent [of n ev root flt md fo fresh_state st] by (rule refl)





lemma is_hidden_take: "is_hidden p \<longleftrightarrow> take 1 (path_name p) = ''.''"
  by (cases "path_name p") (auto simp: is_hidden_def)

lemma tree_disk_ab:
  "tree 2 (disk_env disk_ab) [''a''] default_filters None False
     = Some (Inr [''/a/'', branch_tee @ ''b/'', branch_last @ ''x.txt''])"
  by code_simp

lemma tree_disk_chain_1:
  "tree 2 (disk_env disk_chain) [''a''] default_filters (Some 1) False
     = Some (Inr [''/a/'', branch_last @ ''b/''])"
  by code_simp

lemma tree_disk_chain_2:
  "tree 3 (disk_env disk_chain) [''a''] default_filters (Some 2) False
     = Some (Inr [''/a/'', branch_last @ ''b/'', ''    '' @ branch_last @ ''c/''])"
  by code_simp

lemma tree_disk_alias:
  "tree 2 (disk_env disk_alias) [''a''] default_filters (Some 1) True
     = Some (Inr [''/a/'', branch_tee @ ''b/'', branch_last @ ''c/'', ''    '' @ cycle_text])"
  by code_simp

lemma tree_disk_uncle:
  "tree 3 (disk_env disk_uncle) [''a''] default_filters (Some 2) True
     = Some (Inr [''/a/'', branch_tee @ ''b/'', extension False @ branch_last @ ''x/'',
                  branch_last @ ''c/'', ''    '' @ cycle_text])"
  by code_simp

lemma tree_disk_link:
  "tree 2 (disk_env disk_link) [''a''] (default_filters\<lparr>dirs_only := True\<rparr>) None False
     = Some (Inr [''/a/'', branch_tee @ ''d/'', branch_last @ ''l''])"
  by code_simp

lemma tree_disk_loop:
  "tree 3 (disk_env disk_loop) [''a''] default_filters None True
     = Some (Inr [''/a/'', branch_tee @ ''b/'',
                  extension False @ branch_tee @ ''up/'',
                  extension False @ extension False @ cycle_text,
                  extension False @ branch_last @ ''z'',
                  branch_last @ ''f''])"
  by code_simp


lemma visits_disk_uncle:
  "visits_tree 3 (disk_env disk_uncle) [''a''] default_filters (Some 2) True
     = [Visit 2 [] 1 [''a'', ''b''] [([''a'', ''c''], True)]
          \<lparr>lines = [''/a/''], seen_dirs = {(1, 1)}, seen_realpaths = {}\<rparr>,
        Visit 1 (extension False) 2 [''a'', ''b'', ''x''] []
          \<lparr>lines = [''/a/'', branch_tee @ ''b/''], seen_dirs = {(1, 2), (1, 1)},
            seen_realpaths = {}\<rparr>,
        Visit 2 [] 1 [''a'', ''c''] []
          \<lparr>lines = [''/a/'', branch_tee @ ''b/'', extension False @ branch_last @ ''x/''],
            seen_dirs = {(1, 3), (1, 2), (1, 1)}, seen_realpaths = {}\<rparr>]"
  by code_simp

section \<open>The properties\<close>

text \<open>
  C7. On a root \<^verbatim>\<open>/a\<close> that holds exactly the empty directory \<^verbatim>\<open>/a/b\<close> and the regular
  file \<^verbatim>\<open>/a/x.txt\<close> (listed by the disk in the other order), \<^verbatim>\<open>tree\<close> with no filter,
  no depth limit and links not followed returns the three lines \<^verbatim>\<open>/a/\<close>, the tee
  branch of \<^verbatim>\<open>b/\<close> and the corner branch of \<^verbatim>\<open>x.txt\<close>, in that order: two nested calls
  of \<^verbatim>\<open>walk\<close> suffice, and any deeper bound gives the same.
\<close>

theorem default_scenario:
  "tree (2 + k) (disk_env disk_ab) [''a''] default_filters None False
     = Some (Inr [''/a/'', branch_tee @ ''b/'', branch_last @ ''x.txt''])"
  by (rule tree_fuel_mono [OF tree_disk_ab])

text \<open>
  C9. A run of \<^verbatim>\<open>tree\<close> takes nothing from the run before it. The filesystem is
  not modified: the platform \<open>ev\<close> answers the second run as it answered the first.
  The body of \<^verbatim>\<open>tree\<close>, run with the lines and the two visited sets as whatever an
  earlier run left (\<open>st'\<close>), on the same platform with the same root, filters, depth
  limit and link setting:
  \<^item> where the first run returned or raised, the second does the same, with the same
    lines and the same sets at the end, whenever it may nest its calls at least as
    deep;
  \<^item> two runs that both end, end the same, whatever the states they found and the
    bounds on the nesting;
  \<^item> what \<^verbatim>\<open>tree\<close> returns is the lines of its body, whatever the state found;
  \<^item> so two calls of \<^verbatim>\<open>tree\<close> that both end give the same lines or the same error.
\<close>

theorem tree_deterministic:
  "(tree_body n ev root flt md fo st = Some r
      \<longrightarrow> tree_body (n + k) ev root flt md fo st' = Some r)
   \<and> (tree_body n ev root flt md fo st = Some r \<and> tree_body m ev root flt md fo st' = Some r'
      \<longrightarrow> r = r')
   \<and> tree n ev root flt md fo
       = (case tree_body n ev root flt md fo st of
            None \<Rightarrow> None
          | Some (Inl e) \<Rightarrow> Some (Inl e)
          | Some (Inr st2) \<Rightarrow> Some (Inr (lines st2)))
   \<and> (tree n ev root flt md fo = Some t \<and> tree m ev root flt md fo = Some t' \<longrightarrow> t = t')"
proof (intro conjI impI)
  assume a: "tree_body n ev root flt md fo st = Some r"
  then have "tree_body n ev root flt md fo st' = Some r"
    by (simp add: tree_body_independent [of n ev root flt md fo st' st])
  then show "tree_body (n + k) ev root flt md fo st' = Some r" by (rule tree_body_fuel_mono)
next
  assume "tree_body n ev root flt md fo st = Some r \<and> tree_body m ev root flt md fo st' = Some r'"
  then have a: "tree_body n ev root flt md fo st = Some r"
    and b: "tree_body m ev root flt md fo st = Some r'"
    by (simp_all add: tree_body_independent [of m ev root flt md fo st st'])
  from tree_body_fuel_mono [OF a, of m] tree_body_fuel_mono [OF b, of n]
  show "r = r'" by (simp add: add.commute)
next
  show "tree n ev root flt md fo
       = (case tree_body n ev root flt md fo st of
            None \<Rightarrow> None
          | Some (Inl e) \<Rightarrow> Some (Inl e)
          | Some (Inr st2) \<Rightarrow> Some (Inr (lines st2)))"
    by (rule tree_of_body)
next
  assume "tree n ev root flt md fo = Some t \<and> tree m ev root flt md fo = Some t'"
  then have a: "tree n ev root flt md fo = Some t" and b: "tree m ev root flt md fo = Some t'"
    by simp_all
  from tree_fuel_mono [OF a, of m] tree_fuel_mono [OF b, of n]
  show "t = t'" by (simp add: add.commute)
qed

theorem tree_deterministic_witness:
  "\<exists>st1. tree_body 3 (disk_env disk_loop) [''a''] default_filters None True fresh_state
            = Some (Inr st1)
         \<and> tree_body 7 (disk_env disk_loop) [''a''] default_filters None True st1
            = Some (Inr st1)
         \<and> seen_dirs st1 \<noteq> {}
         \<and> lines st1 = [''/a/'', branch_tee @ ''b/'',
                  extension False @ branch_tee @ ''up/'',
                  extension False @ extension False @ cycle_text,
                  extension False @ branch_last @ ''z'',
                  branch_last @ ''f'']
         \<and> tree 3 (disk_env disk_loop) [''a''] default_filters None True
             = tree 7 (disk_env disk_loop) [''a''] default_filters None True"
proof -
  let ?E = "disk_env disk_loop"
  note t = tree_deterministic [where ev = ?E and root = "[''a'']" and flt = default_filters
      and md = None and fo = True and n = 3]
  from tree_disk_loop t [where st = fresh_state, THEN conjunct2, THEN conjunct2, THEN conjunct1]
  obtain st1 where
    a: "tree_body 3 ?E [''a''] default_filters None True fresh_state = Some (Inr st1)"
    and l: "lines st1 = [''/a/'', branch_tee @ ''b/'',
                  extension False @ branch_tee @ ''up/'',
                  extension False @ extension False @ cycle_text,
                  extension False @ branch_last @ ''z'',
                  branch_last @ ''f'']"
    by (auto split: option.splits sum.splits)
  from t [where st = fresh_state and r = "Inr st1" and k = 4 and st' = st1,
      THEN conjunct1, THEN mp, OF a]
  have b: "tree_body 7 ?E [''a''] default_filters None True st1 = Some (Inr st1)" by simp
  have "seen_dirs (projr (the (tree_body 3 ?E [''a''] default_filters None True fresh_state)))
          \<noteq> {}"
    by code_simp
  with a have s: "seen_dirs st1 \<noteq> {}" by simp
  have "tree 7 ?E [''a''] default_filters None True \<noteq> None" by code_simp
  then obtain t' where c: "tree 7 ?E [''a''] default_filters None True = Some t'" by auto
  from tree_disk_loop c have "tree 3 ?E [''a''] default_filters None True = Some
          (Inr [''/a/'', branch_tee @ ''b/'',
                  extension False @ branch_tee @ ''up/'',
                  extension False @ extension False @ cycle_text,
                  extension False @ branch_last @ ''z'',
                  branch_last @ ''f''])
      \<and> tree 7 ?E [''a''] default_filters None True = Some t'" by simp
  from t [where m = 7 and t' = t', THEN conjunct2, THEN conjunct2, THEN conjunct2, THEN mp,
      OF this] tree_disk_loop c
  have d: "tree 3 ?E [''a''] default_filters None True
             = tree 7 ?E [''a''] default_filters None True" by simp
  from a b s l d show ?thesis by (intro exI [of _ st1] conjI)
qed

text \<open>
  C2. A call of \<^verbatim>\<open>walk\<close> that lists a directory and returns (whatever the platform,
  the filters, the depth limit and the link setting) appends the lines of the entries
  \<open>es\<close> it renders, in their order, each followed by the lines below that entry; the
  lines below begin with the prefix and an extension, the line of an entry never does,
  so the lines of the children of this directory are the lines of \<open>es\<close>. In \<open>es\<close> an
  entry rendered as a directory never comes after one rendered as a non-directory, and
  of two entries of the same kind the earlier has the smaller or equal lower-cased
  name.
\<close>

theorem listing_order:
  assumes "walk (Suc n) ev flt md fo d q depth st = Some (Inr st')"
    and "\<not> too_deep md depth"
  shows "\<exists>es bs. listing ev flt fo d = Inr es \<and> length bs = length es
           \<and> lines st' = lines st @ children_lines q es bs
           \<and> (\<forall>b \<in> set bs. \<forall>l \<in> set b. \<exists>x. starts_with (q @ extension x) l)
           \<and> (\<forall>x is_last p is_dir. \<not> starts_with (q @ extension x) (entry_line q is_last p is_dir))
           \<and> (\<forall>i j. i < j \<and> j < length es \<longrightarrow>
                 (snd (es ! j) \<longrightarrow> snd (es ! i))
               \<and> (snd (es ! i) = snd (es ! j) \<longrightarrow>
                    lower ev (path_name (fst (es ! i))) \<le> lower ev (path_name (fst (es ! j)))))"
proof (cases "listing ev flt fo d")
  case (Inl e)
  with assms show ?thesis by (simp add: walk_listed)
next
  case (Inr es)
  with assms have "walk_entries n ev flt md fo q depth es st = Some (Inr st')"
    by (simp add: walk_listed)
  from walk_entries_lines [OF this] obtain bs where
    len: "length bs = length es" and l: "lines st' = lines st @ children_lines q es bs"
    and b: "\<forall>b \<in> set bs. \<forall>l \<in> set b. \<exists>x. starts_with (q @ extension x) l" by blast
  have order: "(snd (es ! j) \<longrightarrow> snd (es ! i))
               \<and> (snd (es ! i) = snd (es ! j) \<longrightarrow>
                    lower ev (path_name (fst (es ! i))) \<le> lower ev (path_name (fst (es ! j))))"
    if "i < j \<and> j < length es" for i j
  proof -
    from listing_sorted_dirs(1) [OF Inr] have "sorted (map (entry_key ev) es)" .
    with that have "entry_key ev (es ! i) \<le> entry_key ev (es ! j)"
      by (auto simp: sorted_iff_nth_mono_less)
    then show ?thesis by (auto simp: entry_key_def less_eq_prod_def)
  qed
  show ?thesis
  proof (intro exI [of _ es] exI [of _ bs] conjI allI impI)
    show "listing ev flt fo d = Inr es" by (rule Inr)
    show "length bs = length es" by (rule len)
    show "lines st' = lines st @ children_lines q es bs" by (rule l)
    show "\<forall>b \<in> set bs. \<forall>l \<in> set b. \<exists>x. starts_with (q @ extension x) l" by (rule b)
  next
    fix x is_last p is_dir
    show "\<not> starts_with (q @ extension x) (entry_line q is_last p is_dir)"
      by (rule entry_line_not_below)
  next
    fix i j :: nat
    assume "i < j \<and> j < length es"
    then show "snd (es ! j) \<Longrightarrow> snd (es ! i)" using order by blast
  next
    fix i j :: nat
    assume "i < j \<and> j < length es" and "snd (es ! i) = snd (es ! j)"
    then show "lower ev (path_name (fst (es ! i))) \<le> lower ev (path_name (fst (es ! j)))"
      using order by blast
  qed
qed

theorem listing_order_witness:
  "\<not> too_deep None 1
   \<and> walk (Suc 1) (disk_env disk_loop) default_filters None False [''a'', ''b''] ''    '' 1
        (append_line ''/a/'' fresh_state)
       = Some (Inr \<lparr>lines = [''/a/'', ''    '' @ branch_tee @ ''up'', ''    '' @ branch_last @ ''z''],
                    seen_dirs = {}, seen_realpaths = {}\<rparr>)
   \<and> (\<exists>es bs. listing (disk_env disk_loop) default_filters False [''a'', ''b''] = Inr es
         \<and> length bs = length es
         \<and> [''/a/'', ''    '' @ branch_tee @ ''up'', ''    '' @ branch_last @ ''z'']
             = lines (append_line ''/a/'' fresh_state) @ children_lines ''    '' es bs)"
proof -
  have nd: "\<not> too_deep None 1" by (simp add: too_deep_def)
  have w: "walk (Suc 1) (disk_env disk_loop) default_filters None False [''a'', ''b''] ''    '' 1
        (append_line ''/a/'' fresh_state)
       = Some (Inr \<lparr>lines = [''/a/'', ''    '' @ branch_tee @ ''up'', ''    '' @ branch_last @ ''z''],
                    seen_dirs = {}, seen_realpaths = {}\<rparr>)"
    by code_simp
  from listing_order [OF w nd] obtain es bs where
    "listing (disk_env disk_loop) default_filters False [''a'', ''b''] = Inr es"
    "length bs = length es"
    "lines \<lparr>lines = [''/a/'', ''    '' @ branch_tee @ ''up'', ''    '' @ branch_last @ ''z''],
            seen_dirs = {}, seen_realpaths = {}\<rparr>
       = lines (append_line ''/a/'' fresh_state) @ children_lines ''    '' es bs"
    by blast
  then have "\<exists>es bs. listing (disk_env disk_loop) default_filters False [''a'', ''b''] = Inr es
         \<and> length bs = length es
         \<and> [''/a/'', ''    '' @ branch_tee @ ''up'', ''    '' @ branch_last @ ''z'']
             = lines (append_line ''/a/'' fresh_state) @ children_lines ''    '' es bs"
    by (intro exI [of _ es] exI [of _ bs]) simp
  with nd w show ?thesis by (intro conjI)
qed




text \<open>
  C4. Depth counting starts at 1 for the children of the root, and the depth limit cuts
  the enumeration, not the entry:
  \<^item> \<^verbatim>\<open>walk\<close> called at a depth beyond the limit returns at once and leaves lines and
    visited set as they were;
  \<^item> \<^verbatim>\<open>walk\<close> called at a depth within the limit lists its directory and runs the loop
    over the entries at that depth;
  \<^item> a directory entry at the depth of the limit gets its line from the loop of its
    parent, which then goes on to the next entry (links not followed; C10 has the
    other case);
  \<^item> a directory entry at a depth below the limit gets its line, is entered, its
    entries are listed and rendered one level deeper (depth and prefix), and the loop
    of the parent goes on after them: this for every link setting, \<open>st2\<close> being the
    state after the line (and after \<^verbatim>\<open>mark_seen\<close> when links are followed);
  \<^item> \<^verbatim>\<open>tree\<close> calls \<^verbatim>\<open>walk\<close> on the root with depth 1 after the line of the root, and
    with the limit 0 only that line is returned: the children of the root are at
    depth 1;
  \<^item> on the chain \<^verbatim>\<open>/a/b/c\<close> the limit 1 gives the line of \<^verbatim>\<open>/a/\<close> and the corner
    branch of \<^verbatim>\<open>b/\<close>, and no line for \<^verbatim>\<open>c\<close>; the limit 2 gives the line of \<^verbatim>\<open>c/\<close> too,
    and no line for the file in \<^verbatim>\<open>c\<close>.
\<close>

theorem depth_limit:
  "(m < depth \<longrightarrow> walk (Suc n) ev flt (Some m) fo d prefix depth st = Some (Inr st))
   \<and> (depth \<le> m \<longrightarrow>
        walk (Suc n) ev flt (Some m) fo d prefix depth st
          = (case listing ev flt fo d of
               Inl e \<Rightarrow> Some (Inl e)
             | Inr es \<Rightarrow> walk_entries n ev flt (Some m) fo prefix depth es st))
   \<and> walk_entries (Suc n) ev flt (Some m) False prefix m ((p, True) # rest) st
       = walk_entries (Suc n) ev flt (Some m) False prefix m rest
           (append_line (entry_line prefix (rest = []) p True) st)
   \<and> (depth < m
      \<and> follow_and_mark_seen ev fo p (append_line (entry_line prefix (rest = []) p True) st)
          = Inr (False, st2) \<longrightarrow>
        walk_entries (Suc n) ev flt (Some m) fo prefix depth ((p, True) # rest) st
          = (case listing ev flt fo p of
               Inl e \<Rightarrow> Some (Inl e)
             | Inr es \<Rightarrow>
                 (case walk_entries n ev flt (Some m) fo (prefix @ extension (rest = []))
                         (depth + 1) es st2 of
                    None \<Rightarrow> None
                  | Some (Inl e) \<Rightarrow> Some (Inl e)
                  | Some (Inr st3) \<Rightarrow>
                      walk_entries (Suc n) ev flt (Some m) fo prefix depth rest st3)))
   \<and> (resolve ev root = Inr r \<and> path_exists ev r = Inr True \<and> path_is_dir ev r = Inr True \<longrightarrow>
        tree n ev root flt md False
          = (case walk n ev flt md False r [] 1 (append_line (path_str r @ ''/'') fresh_state) of
               None \<Rightarrow> None
             | Some (Inl e) \<Rightarrow> Some (Inl e)
             | Some (Inr st9) \<Rightarrow> Some (Inr (lines st9)))
        \<and> tree (Suc n) ev root flt (Some 0) False = Some (Inr [path_str r @ ''/'']))
   \<and> tree (2 + k) (disk_env disk_chain) [''a''] default_filters (Some 1) False
       = Some (Inr [''/a/'', branch_last @ ''b/''])
   \<and> tree (3 + k) (disk_env disk_chain) [''a''] default_filters (Some 2) False
       = Some (Inr [''/a/'', branch_last @ ''b/'', ''    '' @ branch_last @ ''c/''])"
proof (intro conjI impI)
  assume "m < depth"
  then show "walk (Suc n) ev flt (Some m) fo d prefix depth st = Some (Inr st)"
    by (intro walk_too_deep) (simp add: too_deep_def)
next
  assume "depth \<le> m"
  then show "walk (Suc n) ev flt (Some m) fo d prefix depth st
          = (case listing ev flt fo d of
               Inl e \<Rightarrow> Some (Inl e)
             | Inr es \<Rightarrow> walk_entries n ev flt (Some m) fo prefix depth es st)"
    by (intro walk_listed) (simp add: too_deep_def)
next
  let ?st1 = "append_line (entry_line prefix (rest = []) p True) st"
  have "follow_and_mark_seen ev False p ?st1 = Inr (False, ?st1)"
    by (simp add: follow_and_mark_seen_def)
  from walk_entries_dir_new [OF this]
  show "walk_entries (Suc n) ev flt (Some m) False prefix m ((p, True) # rest) st
       = walk_entries (Suc n) ev flt (Some m) False prefix m rest ?st1"
    by (simp add: walk_too_deep too_deep_def)
next
  assume a: "depth < m
      \<and> follow_and_mark_seen ev fo p (append_line (entry_line prefix (rest = []) p True) st)
          = Inr (False, st2)"
  then have nd: "\<not> too_deep (Some m) (depth + 1)" by (simp add: too_deep_def)
  from a have fm: "follow_and_mark_seen ev fo p
      (append_line (entry_line prefix (rest = []) p True) st) = Inr (False, st2)" by simp
  show "walk_entries (Suc n) ev flt (Some m) fo prefix depth ((p, True) # rest) st
          = (case listing ev flt fo p of
               Inl e \<Rightarrow> Some (Inl e)
             | Inr es \<Rightarrow>
                 (case walk_entries n ev flt (Some m) fo (prefix @ extension (rest = []))
                         (depth + 1) es st2 of
                    None \<Rightarrow> None
                  | Some (Inl e) \<Rightarrow> Some (Inl e)
                  | Some (Inr st3) \<Rightarrow>
                      walk_entries (Suc n) ev flt (Some m) fo prefix depth rest st3))"
    unfolding walk_entries_dir_new [OF fm] walk_listed [OF nd]
    by (cases "listing ev flt fo p") simp_all
next
  assume a: "resolve ev root = Inr r \<and> path_exists ev r = Inr True \<and> path_is_dir ev r = Inr True"
  have fm: "follow_and_mark_seen ev False r (append_line (path_str r @ ''/'') fresh_state)
      = Inr (False, append_line (path_str r @ ''/'') fresh_state)"
    by (simp add: follow_and_mark_seen_def)
  from a have r: "resolve ev root = Inr r" and ex: "path_exists ev r = Inr True"
    and dir: "path_is_dir ev r = Inr True" by simp_all
  have t: "tree n ev root flt md False
          = (case walk n ev flt md False r [] 1 (append_line (path_str r @ ''/'') fresh_state) of
               None \<Rightarrow> None
             | Some (Inl e) \<Rightarrow> Some (Inl e)
             | Some (Inr st9) \<Rightarrow> Some (Inr (lines st9)))" for n md
    by (rule tree_walk [OF r ex dir fm])
  show "tree n ev root flt md False
          = (case walk n ev flt md False r [] 1 (append_line (path_str r @ ''/'') fresh_state) of
               None \<Rightarrow> None
             | Some (Inl e) \<Rightarrow> Some (Inl e)
             | Some (Inr st9) \<Rightarrow> Some (Inr (lines st9)))"
    by (rule t)
  show "tree (Suc n) ev root flt (Some 0) False = Some (Inr [path_str r @ ''/''])"
    unfolding t by (simp add: walk_too_deep too_deep_def lines_append_line fresh_state_def)
next
  show "tree (2 + k) (disk_env disk_chain) [''a''] default_filters (Some 1) False
       = Some (Inr [''/a/'', branch_last @ ''b/''])"
    by (rule tree_fuel_mono [OF tree_disk_chain_1])
next
  show "tree (3 + k) (disk_env disk_chain) [''a''] default_filters (Some 2) False
       = Some (Inr [''/a/'', branch_last @ ''b/'', ''    '' @ branch_last @ ''c/''])"
    by (rule tree_fuel_mono [OF tree_disk_chain_2])
qed

theorem depth_limit_witness:
  "(2::int) < 3
   \<and> walk 1 (disk_env disk_chain) default_filters (Some 2) False [''a'', ''b'', ''c''] ''        '' 3
        (append_line ''/a/'' fresh_state) = Some (Inr (append_line ''/a/'' fresh_state))
   \<and> (1::int) \<le> 2
   \<and> listing (disk_env disk_chain) default_filters False [''a''] = Inr [([''a'', ''b''], True)]
   \<and> walk 3 (disk_env disk_chain) default_filters (Some 2) False [''a''] [] 1
        (append_line ''/a/'' fresh_state)
       = walk_entries 2 (disk_env disk_chain) default_filters (Some 2) False [] 1
           [([''a'', ''b''], True)] (append_line ''/a/'' fresh_state)
   \<and> (1::int) < 2
   \<and> follow_and_mark_seen (disk_env disk_chain) False [''a'', ''b'']
        (append_line (entry_line [] True [''a'', ''b''] True) (append_line ''/a/'' fresh_state))
       = Inr (False, append_line (entry_line [] True [''a'', ''b''] True)
                       (append_line ''/a/'' fresh_state))
   \<and> listing (disk_env disk_chain) default_filters False [''a'', ''b'']
       = Inr [([''a'', ''b'', ''c''], True)]
   \<and> walk_entries 2 (disk_env disk_chain) default_filters (Some 2) False [] 1
        [([''a'', ''b''], True)] (append_line ''/a/'' fresh_state)
       = walk_entries 1 (disk_env disk_chain) default_filters (Some 2) False ''    '' 2
           [([''a'', ''b'', ''c''], True)]
           (append_line (entry_line [] True [''a'', ''b''] True) (append_line ''/a/'' fresh_state))
   \<and> resolve (disk_env disk_chain) [''a''] = Inr [''a'']
   \<and> path_exists (disk_env disk_chain) [''a''] = Inr True
   \<and> path_is_dir (disk_env disk_chain) [''a''] = Inr True
   \<and> tree 1 (disk_env disk_chain) [''a''] default_filters (Some 0) False = Some (Inr [''/a/''])"
proof -
  let ?E = "disk_env disk_chain"
  let ?S = "append_line ''/a/'' fresh_state"
  let ?S1 = "append_line (entry_line [] True [''a'', ''b''] True) ?S"
  have la: "listing ?E default_filters False [''a''] = Inr [([''a'', ''b''], True)]"
    and lb: "listing ?E default_filters False [''a'', ''b''] = Inr [([''a'', ''b'', ''c''], True)]"
    and r: "resolve ?E [''a''] = Inr [''a'']"
    and ex: "path_exists ?E [''a''] = Inr True"
    and dir: "path_is_dir ?E [''a''] = Inr True"
    by code_simp+
  have fm: "follow_and_mark_seen ?E False [''a'', ''b''] ?S1 = Inr (False, ?S1)"
    by (simp add: follow_and_mark_seen_def)
  have 1: "walk 1 ?E default_filters (Some 2) False [''a'', ''b'', ''c''] ''        '' 3 ?S
      = Some (Inr ?S)"
    using depth_limit [where m = 2 and depth = 3 and n = 0 and ev = ?E and flt = default_filters
        and fo = False and d = "[''a'', ''b'', ''c'']" and prefix = "''        ''" and st = ?S,
        THEN conjunct1] by simp
  have 2: "walk 3 ?E default_filters (Some 2) False [''a''] [] 1 ?S
      = walk_entries 2 ?E default_filters (Some 2) False [] 1 [([''a'', ''b''], True)] ?S"
    using depth_limit [where m = 2 and depth = 1 and n = 2 and ev = ?E and flt = default_filters
        and fo = False and d = "[''a'']" and prefix = "[]" and st = ?S,
        THEN conjunct2, THEN conjunct1] la by (simp add: numeral_3_eq_3)
  have 3: "walk_entries 2 ?E default_filters (Some 2) False [] 1 [([''a'', ''b''], True)] ?S
      = walk_entries 1 ?E default_filters (Some 2) False ''    '' 2
          [([''a'', ''b'', ''c''], True)] ?S1"
    using depth_limit [where m = 2 and depth = 1 and n = 1 and ev = ?E and flt = default_filters
        and fo = False and p = "[''a'', ''b'']" and rest = "[]" and prefix = "[]" and st = ?S
        and ?st2.0 = ?S1,
        THEN conjunct2, THEN conjunct2, THEN conjunct2, THEN conjunct1] fm lb
    by (auto simp: numeral_2_eq_2 extension_def split: option.splits sum.splits)
  from r ex dir have "resolve ?E [''a''] = Inr [''a''] \<and> path_exists ?E [''a''] = Inr True
      \<and> path_is_dir ?E [''a''] = Inr True" by (intro conjI)
  from depth_limit [where ev = ?E and root = "[''a'']" and r = "[''a'']" and n = 0
      and flt = default_filters,
      THEN conjunct2, THEN conjunct2, THEN conjunct2, THEN conjunct2, THEN conjunct1,
      THEN mp, OF this, THEN conjunct2]
  have 4: "tree 1 ?E [''a''] default_filters (Some 0) False = Some (Inr [''/a/''])"
    by (simp add: path_str_def)
  from 1 la 2 fm lb 3 r ex dir 4 show ?thesis by simp
qed

text \<open>
  C10. With links followed:
  \<^item> a directory entry that is new and lies at the depth of the limit (or deeper) is
    put into the visited set when it is rendered, although its children are never
    listed: the loop goes on with a state that has the one more line and the one
    more identity, and a directory entry of that identity met in any state that still
    holds it gets the cycle marker and is not entered;
  \<^item> every later state of the run does still hold it. Of two rounds of the loop for
    a directory entry in one run of \<^verbatim>\<open>tree\<close> that returns (rounds of any two calls of
    \<^verbatim>\<open>walk\<close>, however the one lies to the other in the tree, whether \<^verbatim>\<open>walk\<close> listed the
    first directory or returned at once because of the limit), if the two
    directories have the same identity then the later round appends the line of its
    entry and the cycle marker and goes on to the next entry; these two lines are in
    what \<^verbatim>\<open>tree\<close> returns, right after the lines that were there when the round began;
  \<^item> the visited set a run of \<^verbatim>\<open>tree\<close> ends with holds the identity of every directory
    entry the run had a round for, at whatever depth;
  \<^item> on the disk where \<^verbatim>\<open>/a/c\<close> links to \<^verbatim>\<open>/a/b\<close>, limit 1: \<^verbatim>\<open>b/\<close>, then \<^verbatim>\<open>c/\<close> with the
    cycle marker below; on the disk where \<^verbatim>\<open>/a/c\<close> links to \<^verbatim>\<open>/a/b/x\<close>, limit 2: \<^verbatim>\<open>b/\<close>,
    \<^verbatim>\<open>x/\<close> below it, then \<^verbatim>\<open>c/\<close> with the cycle marker below, and no line for what is
    in \<^verbatim>\<open>x\<close>.
\<close>

theorem depth_cut_directory_marked_seen:
  "(identity ev p = Inr i \<and> i \<notin> seen st \<and> m \<le> depth \<longrightarrow>
     (\<exists>st'. walk_entries (Suc n) ev flt (Some m) True prefix depth ((p, True) # rest) st
              = walk_entries (Suc n) ev flt (Some m) True prefix depth rest st'
          \<and> lines st' = lines st @ [entry_line prefix (rest = []) p True]
          \<and> seen st' = insert i (seen st)
          \<and> (\<forall>q k pre dep rest' st''.
                identity ev q = Inr i \<and> seen st' \<subseteq> seen st'' \<longrightarrow>
                walk_entries k ev flt (Some m) True pre dep ((q, True) # rest') st''
                  = walk_entries k ev flt (Some m) True pre dep rest'
                      (append_line (cycle_line pre (rest' = []))
                         (append_line (entry_line pre (rest' = []) q True) st'')))))
   \<and> (tree n ev root flt md True = Some (Inr ls)
      \<and> visits_tree n ev root flt md True
          = vs1 @ [u] @ vs2 @ [Visit k' pre' dep' q' rest'' stq] @ vs3
      \<and> identity ev (v_path u) = Inr a \<and> identity ev q' = Inr a \<longrightarrow>
        walk_entries k' ev flt md True pre' dep' ((q', True) # rest'') stq
          = walk_entries k' ev flt md True pre' dep' rest''
              (append_line (cycle_line pre' (rest'' = []))
                 (append_line (entry_line pre' (rest'' = []) q' True) stq))
        \<and> (\<exists>more. ls = lines stq
                       @ [entry_line pre' (rest'' = []) q' True, cycle_line pre' (rest'' = [])]
                       @ more))
   \<and> (tree_body n ev root flt md True st0 = Some (Inr st9)
      \<and> v \<in> set (visits_tree n ev root flt md True)
      \<and> identity ev (v_path v) = Inr c \<longrightarrow> c \<in> seen st9)
   \<and> tree (2 + j) (disk_env disk_alias) [''a''] default_filters (Some 1) True
       = Some (Inr [''/a/'', branch_tee @ ''b/'', branch_last @ ''c/'', ''    '' @ cycle_text])
   \<and> tree (3 + j) (disk_env disk_uncle) [''a''] default_filters (Some 2) True
       = Some (Inr [''/a/'', branch_tee @ ''b/'', extension False @ branch_last @ ''x/'',
                    branch_last @ ''c/'', ''    '' @ cycle_text])"
proof -
  have local: "\<exists>st'. walk_entries (Suc n) ev flt (Some m) True prefix depth ((p, True) # rest) st
              = walk_entries (Suc n) ev flt (Some m) True prefix depth rest st'
          \<and> lines st' = lines st @ [entry_line prefix (rest = []) p True]
          \<and> seen st' = insert i (seen st)
          \<and> (\<forall>q k pre dep rest' st''.
                identity ev q = Inr i \<and> seen st' \<subseteq> seen st'' \<longrightarrow>
                walk_entries k ev flt (Some m) True pre dep ((q, True) # rest') st''
                  = walk_entries k ev flt (Some m) True pre dep rest'
                      (append_line (cycle_line pre (rest' = []))
                         (append_line (entry_line pre (rest' = []) q True) st'')))"
    if a: "identity ev p = Inr i \<and> i \<notin> seen st \<and> m \<le> depth"
  proof -
    let ?st1 = "append_line (entry_line prefix (rest = []) p True) st"
    from a have deep: "too_deep (Some m) (depth + 1)" by (simp add: too_deep_def)
    from a have "identity ev p = Inr i" and "i \<notin> seen ?st1" by (simp_all add: seen_append_line)
    from mark_seen_new [OF this] obtain st' where
      ms: "mark_seen ev p ?st1 = Inr (False, st')" and s: "seen st' = insert i (seen st)"
      and l: "lines st' = lines st @ [entry_line prefix (rest = []) p True]"
      by (auto simp: seen_append_line lines_append_line)
    from ms have fm: "follow_and_mark_seen ev True p ?st1 = Inr (False, st')"
      by (simp add: follow_and_mark_seen_def)
    have 1: "walk_entries (Suc n) ev flt (Some m) True prefix depth ((p, True) # rest) st
              = walk_entries (Suc n) ev flt (Some m) True prefix depth rest st'"
      unfolding walk_entries_dir_new [OF fm] by (simp add: walk_too_deep [OF deep])
    have 4: "walk_entries k ev flt (Some m) True pre dep ((q, True) # rest') st''
                  = walk_entries k ev flt (Some m) True pre dep rest'
                      (append_line (cycle_line pre (rest' = []))
                         (append_line (entry_line pre (rest' = []) q True) st''))"
      if b: "identity ev q = Inr i \<and> seen st' \<subseteq> seen st''" for q k pre dep rest' st''
    proof -
      let ?s1 = "append_line (entry_line pre (rest' = []) q True) st''"
      from b s have "identity ev q = Inr i" and "i \<in> seen ?s1"
        by (auto simp: seen_append_line)
      from mark_seen_old [OF this]
      have "follow_and_mark_seen ev True q ?s1 = Inr (True, ?s1)"
        by (simp add: follow_and_mark_seen_def)
      then show ?thesis by (rule walk_entries_dir_seen)
    qed
    from 1 l s 4 show ?thesis by (intro exI [of _ st'] conjI allI impI)
  qed
  have global: "walk_entries k' ev flt md True pre' dep' ((q', True) # rest'') stq
          = walk_entries k' ev flt md True pre' dep' rest''
              (append_line (cycle_line pre' (rest'' = []))
                 (append_line (entry_line pre' (rest'' = []) q' True) stq))
        \<and> (\<exists>more. ls = lines stq
                       @ [entry_line pre' (rest'' = []) q' True, cycle_line pre' (rest'' = [])]
                       @ more)"
    if a: "tree n ev root flt md True = Some (Inr ls)
      \<and> visits_tree n ev root flt md True
          = vs1 @ [u] @ vs2 @ [Visit k' pre' dep' q' rest'' stq] @ vs3
      \<and> identity ev (v_path u) = Inr a \<and> identity ev q' = Inr a"
  proof -
    let ?vs = "visits_tree n ev root flt md True"
    let ?i = "length vs1" and ?j = "length vs1 + 1 + length vs2"
    from a have t: "tree n ev root flt md True = Some (Inr ls)"
      and vs: "?vs = vs1 @ [u] @ vs2 @ [Visit k' pre' dep' q' rest'' stq] @ vs3"
      and iu: "identity ev (v_path u) = Inr a" and iq: "identity ev q' = Inr a" by simp_all
    have ij: "?i < ?j" by simp
    from vs have len: "?j < length ?vs" by simp
    from vs have vi: "?vs ! ?i = u" by (simp add: nth_append)
    have "length (vs1 @ [u] @ vs2) = ?j" by simp
    with nth_append_length [of "vs1 @ [u] @ vs2" "Visit k' pre' dep' q' rest'' stq" vs3]
    have "((vs1 @ [u] @ vs2) @ Visit k' pre' dep' q' rest'' stq # vs3) ! ?j
        = Visit k' pre' dep' q' rest'' stq" by simp
    with vs have vj: "?vs ! ?j = Visit k' pre' dep' q' rest'' stq" by simp
    from iu vi have a1: "identity ev (v_path (?vs ! ?i)) = Inr a" by simp
    from iq vj have a2: "identity ev (v_path (?vs ! ?j)) = Inr a" by simp
    from later_visit_cycle(1) [OF t ij len a1 a2] later_visit_cycle(2) [OF t ij len a1 a2]
    show ?thesis unfolding vj visit.sel by (intro conjI)
  qed
  show ?thesis
  proof (intro conjI)
    from local show "identity ev p = Inr i \<and> i \<notin> seen st \<and> m \<le> depth \<longrightarrow>
     (\<exists>st'. walk_entries (Suc n) ev flt (Some m) True prefix depth ((p, True) # rest) st
              = walk_entries (Suc n) ev flt (Some m) True prefix depth rest st'
          \<and> lines st' = lines st @ [entry_line prefix (rest = []) p True]
          \<and> seen st' = insert i (seen st)
          \<and> (\<forall>q k pre dep rest' st''.
                identity ev q = Inr i \<and> seen st' \<subseteq> seen st'' \<longrightarrow>
                walk_entries k ev flt (Some m) True pre dep ((q, True) # rest') st''
                  = walk_entries k ev flt (Some m) True pre dep rest'
                      (append_line (cycle_line pre (rest' = []))
                         (append_line (entry_line pre (rest' = []) q True) st''))))"
      by (rule impI)
    from global show "tree n ev root flt md True = Some (Inr ls)
      \<and> visits_tree n ev root flt md True
          = vs1 @ [u] @ vs2 @ [Visit k' pre' dep' q' rest'' stq] @ vs3
      \<and> identity ev (v_path u) = Inr a \<and> identity ev q' = Inr a \<longrightarrow>
        walk_entries k' ev flt md True pre' dep' ((q', True) # rest'') stq
          = walk_entries k' ev flt md True pre' dep' rest''
              (append_line (cycle_line pre' (rest'' = []))
                 (append_line (entry_line pre' (rest'' = []) q' True) stq))
        \<and> (\<exists>more. ls = lines stq
                       @ [entry_line pre' (rest'' = []) q' True, cycle_line pre' (rest'' = [])]
                       @ more)"
      by (rule impI)
    show "tree_body n ev root flt md True st0 = Some (Inr st9)
      \<and> v \<in> set (visits_tree n ev root flt md True)
      \<and> identity ev (v_path v) = Inr c \<longrightarrow> c \<in> seen st9"
      by (auto intro: visits_tree_end)
    show "tree (2 + j) (disk_env disk_alias) [''a''] default_filters (Some 1) True
       = Some (Inr [''/a/'', branch_tee @ ''b/'', branch_last @ ''c/'', ''    '' @ cycle_text])"
      by (rule tree_fuel_mono [OF tree_disk_alias])
    show "tree (3 + j) (disk_env disk_uncle) [''a''] default_filters (Some 2) True
       = Some (Inr [''/a/'', branch_tee @ ''b/'', extension False @ branch_last @ ''x/'',
                    branch_last @ ''c/'', ''    '' @ cycle_text])"
      by (rule tree_fuel_mono [OF tree_disk_uncle])
  qed
qed

theorem depth_cut_directory_marked_seen_witness:
  "identity (disk_env disk_uncle) [''a'', ''b'', ''x''] = Inr (DevIno (1, 3))
   \<and> DevIno (1, 3) \<notin> seen \<lparr>lines = [''/a/'', branch_tee @ ''b/''],
                             seen_dirs = {(1, 2), (1, 1)}, seen_realpaths = {}\<rparr>
   \<and> (2::int) \<le> 2
   \<and> (\<exists>st'. walk_entries 1 (disk_env disk_uncle) default_filters (Some 2) True
               (extension False) 2 [([''a'', ''b'', ''x''], True)]
               \<lparr>lines = [''/a/'', branch_tee @ ''b/''],
                 seen_dirs = {(1, 2), (1, 1)}, seen_realpaths = {}\<rparr>
             = Some (Inr st')
          \<and> lines st' = [''/a/'', branch_tee @ ''b/'', extension False @ branch_last @ ''x/'']
          \<and> DevIno (1, 3) \<in> seen st')
   \<and> tree 3 (disk_env disk_uncle) [''a''] default_filters (Some 2) True
       = Some (Inr [''/a/'', branch_tee @ ''b/'', extension False @ branch_last @ ''x/'',
                    branch_last @ ''c/'', ''    '' @ cycle_text])
   \<and> visits_tree 3 (disk_env disk_uncle) [''a''] default_filters (Some 2) True
       = [Visit 2 [] 1 [''a'', ''b''] [([''a'', ''c''], True)]
            \<lparr>lines = [''/a/''], seen_dirs = {(1, 1)}, seen_realpaths = {}\<rparr>]
         @ [Visit 1 (extension False) 2 [''a'', ''b'', ''x''] []
              \<lparr>lines = [''/a/'', branch_tee @ ''b/''], seen_dirs = {(1, 2), (1, 1)},
                seen_realpaths = {}\<rparr>]
         @ []
         @ [Visit 2 [] 1 [''a'', ''c''] []
              \<lparr>lines = [''/a/'', branch_tee @ ''b/'', extension False @ branch_last @ ''x/''],
                seen_dirs = {(1, 3), (1, 2), (1, 1)}, seen_realpaths = {}\<rparr>]
         @ []
   \<and> identity (disk_env disk_uncle) [''a'', ''c''] = Inr (DevIno (1, 3))
   \<and> walk_entries 2 (disk_env disk_uncle) default_filters (Some 2) True [] 1
        [([''a'', ''c''], True)]
        \<lparr>lines = [''/a/'', branch_tee @ ''b/'', extension False @ branch_last @ ''x/''],
          seen_dirs = {(1, 3), (1, 2), (1, 1)}, seen_realpaths = {}\<rparr>
       = Some (Inr \<lparr>lines = [''/a/'', branch_tee @ ''b/'',
                             extension False @ branch_last @ ''x/'',
                             branch_last @ ''c/'', ''    '' @ cycle_text],
                    seen_dirs = {(1, 3), (1, 2), (1, 1)}, seen_realpaths = {}\<rparr>)
   \<and> (\<exists>st9. tree_body 3 (disk_env disk_uncle) [''a''] default_filters (Some 2) True
                fresh_state = Some (Inr st9)
             \<and> DevIno (1, 3) \<in> seen st9)"
proof -
  let ?E = "disk_env disk_uncle"
  let ?x = "[''a'', ''b'', ''x'']" and ?c = "[''a'', ''c'']"
  let ?S0 = "\<lparr>lines = [''/a/''], seen_dirs = {(1, 1)}, seen_realpaths = {}\<rparr>"
  let ?S1 = "\<lparr>lines = [''/a/'', branch_tee @ ''b/''],
              seen_dirs = {(1, 2), (1, 1)}, seen_realpaths = {}\<rparr>"
  let ?S2 = "\<lparr>lines = [''/a/'', branch_tee @ ''b/'', extension False @ branch_last @ ''x/''],
              seen_dirs = {(1, 3), (1, 2), (1, 1)}, seen_realpaths = {}\<rparr>"
  let ?u = "Visit 1 (extension False) 2 ?x [] ?S1"
  let ?LS = "[''/a/'', branch_tee @ ''b/'', extension False @ branch_last @ ''x/'',
              branch_last @ ''c/'', ''    '' @ cycle_text]"
  have ix: "identity ?E ?x = Inr (DevIno (1, 3))" and ic: "identity ?E ?c = Inr (DevIno (1, 3))"
    by code_simp+
  have new: "DevIno (1, 3) \<notin> seen ?S1" by (simp add: seen_def)
  note t = depth_cut_directory_marked_seen [where ev = ?E and flt = default_filters]
  from ix new have "identity ?E ?x = Inr (DevIno (1, 3)) \<and> DevIno (1, 3) \<notin> seen ?S1
      \<and> (2::int) \<le> 2" by simp
  from t [where p = ?x and i = "DevIno (1, 3)" and st = ?S1 and m = 2 and depth = 2 and n = 0
      and prefix = "extension False" and rest = "[]", THEN conjunct1, THEN mp, OF this]
  obtain st' where
    1: "walk_entries (Suc 0) ?E default_filters (Some 2) True (extension False) 2 [(?x, True)] ?S1
          = walk_entries (Suc 0) ?E default_filters (Some 2) True (extension False) 2 [] st'"
    and 2: "lines st' = lines ?S1
              @ [entry_line (extension False) (([] :: (path \<times> bool) list) = []) ?x True]"
    and 3: "seen st' = insert (DevIno (1, 3)) (seen ?S1)"
    by blast
  from 1 have w1: "walk_entries 1 ?E default_filters (Some 2) True (extension False) 2
      [(?x, True)] ?S1 = Some (Inr st')" by simp
  from 2 have w2: "lines st' = [''/a/'', branch_tee @ ''b/'',
      extension False @ branch_last @ ''x/'']"
    by (simp add: entry_line_def path_name_def)
  from 3 have w3: "DevIno (1, 3) \<in> seen st'" by simp
  from w1 w2 w3 have local: "\<exists>st'. walk_entries 1 ?E default_filters (Some 2) True
      (extension False) 2 [(?x, True)] ?S1 = Some (Inr st')
      \<and> lines st' = [''/a/'', branch_tee @ ''b/'', extension False @ branch_last @ ''x/'']
      \<and> DevIno (1, 3) \<in> seen st'" by blast
  have vs: "visits_tree 3 ?E [''a''] default_filters (Some 2) True
      = [Visit 2 [] 1 [''a'', ''b''] [(?c, True)] ?S0] @ [?u] @ [] @ [Visit 2 [] 1 ?c [] ?S2] @ []"
    using visits_disk_uncle by simp
  from tree_disk_uncle vs ix ic
  have "tree 3 ?E [''a''] default_filters (Some 2) True = Some (Inr ?LS)
      \<and> visits_tree 3 ?E [''a''] default_filters (Some 2) True
          = [Visit 2 [] 1 [''a'', ''b''] [(?c, True)] ?S0] @ [?u] @ []
            @ [Visit 2 [] 1 ?c [] ?S2] @ []
      \<and> identity ?E (v_path ?u) = Inr (DevIno (1, 3)) \<and> identity ?E ?c = Inr (DevIno (1, 3))"
    by simp
  from t [where n = 3 and root = "[''a'']" and md = "Some 2" and ls = ?LS
      and ?vs1.0 = "[Visit 2 [] 1 [''a'', ''b''] [(?c, True)] ?S0]" and u = ?u and ?vs2.0 = "[]"
      and k' = 2 and pre' = "[]" and dep' = 1 and q' = ?c and rest'' = "[]" and stq = ?S2
      and ?vs3.0 = "[]" and a = "DevIno (1, 3)",
      THEN conjunct2, THEN conjunct1, THEN mp, OF this, THEN conjunct1]
  have 4: "walk_entries 2 ?E default_filters (Some 2) True [] 1 [(?c, True)] ?S2
      = Some (Inr \<lparr>lines = ?LS, seen_dirs = {(1, 3), (1, 2), (1, 1)}, seen_realpaths = {}\<rparr>)"
    by (simp add: append_line_def entry_line_def cycle_line_def path_name_def extension_def)
  have "tree_body 3 ?E [''a''] default_filters (Some 2) True fresh_state \<noteq> None
      \<and> (\<forall>e. tree_body 3 ?E [''a''] default_filters (Some 2) True fresh_state
               \<noteq> Some (Inl e))"
    using tree_disk_uncle by (auto simp: tree_def split: option.splits sum.splits)
  then obtain st9 where
    b: "tree_body 3 ?E [''a''] default_filters (Some 2) True fresh_state = Some (Inr st9)"
    by (cases "tree_body 3 ?E [''a''] default_filters (Some 2) True fresh_state")
       (auto intro: sum.exhaust)
  from vs have "?u \<in> set (visits_tree 3 ?E [''a''] default_filters (Some 2) True)" by simp
  with b ix have "tree_body 3 ?E [''a''] default_filters (Some 2) True fresh_state
        = Some (Inr st9)
      \<and> ?u \<in> set (visits_tree 3 ?E [''a''] default_filters (Some 2) True)
      \<and> identity ?E (v_path ?u) = Inr (DevIno (1, 3))" by simp
  from t [where n = 3 and root = "[''a'']" and md = "Some 2" and ?st0.0 = fresh_state
      and ?st9.0 = st9 and v = ?u and c = "DevIno (1, 3)",
      THEN conjunct2, THEN conjunct2, THEN conjunct1, THEN mp, OF this]
  have 5: "DevIno (1, 3) \<in> seen st9" .
  from b 5 have 6: "\<exists>st9. tree_body 3 ?E [''a''] default_filters (Some 2) True fresh_state
        = Some (Inr st9) \<and> DevIno (1, 3) \<in> seen st9" by blast
  from ix new local tree_disk_uncle vs ic 4 6 show ?thesis by simp
qed

text \<open>
  C6, as the code runs. With \<^verbatim>\<open>dirs_only\<close> set and links not followed, on the disk
  where \<^verbatim>\<open>/a/l\<close> is a symbolic link to the directory \<^verbatim>\<open>/a/d\<close>: the walk finds that
  \<^verbatim>\<open>l\<close> is not a directory (it is sorted after \<^verbatim>\<open>d\<close> and rendered without the slash),
  but \<^verbatim>\<open>should_ignore\<close> asks \<^verbatim>\<open>path.is_dir()\<close>, which follows the link, and keeps it.
\<close>

theorem dirs_only_keeps_symlink_to_directory:
  "entry_is_dir (disk_env disk_link) [''a'', ''l''] False = Inr False
   \<and> should_ignore (disk_env disk_link) [''a'', ''l''] (default_filters\<lparr>dirs_only := True\<rparr>)
       = Inr False
   \<and> tree (2 + k) (disk_env disk_link) [''a''] (default_filters\<lparr>dirs_only := True\<rparr>) None False
       = Some (Inr [''/a/'', branch_tee @ ''d/'', branch_last @ ''l''])"
proof (intro conjI)
  show "entry_is_dir (disk_env disk_link) [''a'', ''l''] False = Inr False" by code_simp
  show "should_ignore (disk_env disk_link) [''a'', ''l''] (default_filters\<lparr>dirs_only := True\<rparr>)
      = Inr False"
    by code_simp
  show "tree (2 + k) (disk_env disk_link) [''a''] (default_filters\<lparr>dirs_only := True\<rparr>) None False
       = Some (Inr [''/a/'', branch_tee @ ''d/'', branch_last @ ''l''])"
    by (rule tree_fuel_mono [OF tree_disk_link])
qed

text \<open>
  C8, as stated, fails for the empty pattern: the pattern is set and the name
  \<^verbatim>\<open>x.txt\<close> does not match it, so rule 4 of the specification excludes the entry (a
  regular file), and \<^verbatim>\<open>should_ignore\<close> keeps it, for the empty string is false in
  \<^verbatim>\<open>if flt.pattern\<close>.
\<close>

theorem empty_pattern_counterexample:
  "should_ignore (disk_env disk_ab) [''a'', ''x.txt''] (default_filters\<lparr>pattern := Some ''''\<rparr>)
     = Inr False
   \<and> rule_pattern (disk_env disk_ab) (default_filters\<lparr>pattern := Some ''''\<rparr>) ''x.txt''
   \<and> spec_shouldExclude (disk_env disk_ab) (default_filters\<lparr>pattern := Some ''''\<rparr>) ''x.txt''
        False"
  by code_simp

text \<open>
  C8, amended in rule 4 only, which counts for a pattern that is not the empty
  string. Take an entry and its directory-ness \<open>is_directory\<close>, and let the check of
  the filter, \<^verbatim>\<open>path.is_dir()\<close>, return that directory-ness if \<^verbatim>\<open>dirs_only\<close> is set (it
  does not for a symbolic link to a directory when links are not followed, which is
  C6, and it may raise). Then \<^verbatim>\<open>should_ignore\<close> returns, and returns true exactly when
  one of the five rules matches. \<^verbatim>\<open>should_ignore\<close> raises exactly when \<^verbatim>\<open>dirs_only\<close> is
  set, none of the rules 1 to 4 matches (they come first and the first match wins), and
  \<^verbatim>\<open>path.is_dir()\<close> raises. And an entry that is included when hidden entries are not
  shown is included when they are shown, all else equal.
\<close>

theorem filter_composition:
  "((dirs_only flt \<longrightarrow> path_is_dir ev p = Inr is_directory) \<longrightarrow>
      should_ignore ev p flt
        = Inr (rule_hidden flt (path_name p) \<or> rule_ignore_names flt (path_name p)
               \<or> rule_ignore_globs ev flt (path_name p)
               \<or> rule_pattern_nonempty ev flt (path_name p)
               \<or> rule_dirs_only flt is_directory))
   \<and> (should_ignore ev p flt = Inl e \<longleftrightarrow>
        dirs_only flt \<and> path_is_dir ev p = Inl e
        \<and> \<not> (rule_hidden flt (path_name p) \<or> rule_ignore_names flt (path_name p)
              \<or> rule_ignore_globs ev flt (path_name p)
              \<or> rule_pattern_nonempty ev flt (path_name p)))
   \<and> (should_ignore ev p (flt\<lparr>show_hidden := False\<rparr>) = Inr False
        \<longrightarrow> should_ignore ev p (flt\<lparr>show_hidden := True\<rparr>) = Inr False)"
proof -
  have r4: "rule_pattern_nonempty ev flt (path_name p)
      \<longleftrightarrow> truthy (pattern flt) \<and> \<not> fnmatch ev (path_name p) (the (pattern flt))" for flt
    by (cases "pattern flt") (auto simp: rule_pattern_nonempty_def rule_pattern_def truthy_def)
  note defs = should_ignore_def Let_def is_hidden_take rule_hidden_def rule_ignore_names_def
    rule_ignore_globs_def rule_dirs_only_def matches_any_glob_def r4
  show ?thesis
  proof (intro conjI impI)
    assume "dirs_only flt \<longrightarrow> path_is_dir ev p = Inr is_directory"
    then show "should_ignore ev p flt
        = Inr (rule_hidden flt (path_name p) \<or> rule_ignore_names flt (path_name p)
               \<or> rule_ignore_globs ev flt (path_name p)
               \<or> rule_pattern_nonempty ev flt (path_name p)
               \<or> rule_dirs_only flt is_directory)"
      by (auto simp: defs)
  next
    show "should_ignore ev p flt = Inl e \<longleftrightarrow>
        dirs_only flt \<and> path_is_dir ev p = Inl e
        \<and> \<not> (rule_hidden flt (path_name p) \<or> rule_ignore_names flt (path_name p)
              \<or> rule_ignore_globs ev flt (path_name p)
              \<or> rule_pattern_nonempty ev flt (path_name p))"
      by (auto simp: defs split: sum.splits)
  next
    assume "should_ignore ev p (flt\<lparr>show_hidden := False\<rparr>) = Inr False"
    then show "should_ignore ev p (flt\<lparr>show_hidden := True\<rparr>) = Inr False"
      by (auto simp: should_ignore_def Let_def split: if_splits sum.splits)
  qed
qed

theorem filter_composition_witness:
  "dirs_only (default_filters\<lparr>dirs_only := True\<rparr>)
   \<and> path_is_dir (disk_env disk_ab) [''a'', ''x.txt''] = Inr False
   \<and> should_ignore (disk_env disk_ab) [''a'', ''x.txt''] (default_filters\<lparr>dirs_only := True\<rparr>)
       = Inr True
   \<and> rule_dirs_only (default_filters\<lparr>dirs_only := True\<rparr>) False
   \<and> should_ignore (disk_env disk_ab) [''a'', ''x.txt''] (default_filters\<lparr>show_hidden := False\<rparr>)
       = Inr False
   \<and> should_ignore (disk_env disk_ab) [''a'', ''x.txt''] (default_filters\<lparr>show_hidden := True\<rparr>)
       = Inr False"
proof -
  let ?E = "disk_env disk_ab" and ?p = "[''a'', ''x.txt'']"
  have d: "dirs_only (default_filters\<lparr>dirs_only := True\<rparr>)" by simp
  have pd: "path_is_dir ?E ?p = Inr False" by code_simp
  have r5: "rule_dirs_only (default_filters\<lparr>dirs_only := True\<rparr>) False"
    by (simp add: rule_dirs_only_def)
  from pd have "dirs_only (default_filters\<lparr>dirs_only := True\<rparr>) \<longrightarrow> path_is_dir ?E ?p = Inr False"
    by simp
  from filter_composition [where ev = ?E and p = ?p and is_directory = False
      and flt = "default_filters\<lparr>dirs_only := True\<rparr>", THEN conjunct1, THEN mp, OF this] r5
  have 1: "should_ignore ?E ?p (default_filters\<lparr>dirs_only := True\<rparr>) = Inr True" by simp
  have a: "should_ignore ?E ?p (default_filters\<lparr>show_hidden := False\<rparr>) = Inr False"
    by code_simp
  from filter_composition [where ev = ?E and p = ?p and flt = default_filters,
      THEN conjunct2, THEN conjunct2, THEN mp, OF a]
  have 2: "should_ignore ?E ?p (default_filters\<lparr>show_hidden := True\<rparr>) = Inr False" .
  from d pd 1 r5 a 2 show ?thesis by (intro conjI)
qed






end
